theory Spec2Isabelle
  imports Complex_Main "HOL-Library.Char_ord" "HOL-Library.List_Lexorder"
begin

section \<open>JavaScript values used by the bot\<close>

text \<open>
  A JavaScript Number is modelled by its mathematical value: a finite Number is the
  rational value of a double, and the three non-finite Numbers are constructors of their
  own. The two zeros are one value. Strings are lists of 8-bit characters (texts within
  Latin-1).
\<close>

datatype jsnum = NaN | PosInfinity | NegInfinity | Finite rat

fun Number_isFinite :: "jsnum \<Rightarrow> bool" where
  "Number_isFinite (Finite q) = True"
| "Number_isFinite n = False"

fun js_negate :: "jsnum \<Rightarrow> jsnum" where
  "js_negate NaN = NaN"
| "js_negate PosInfinity = NegInfinity"
| "js_negate NegInfinity = PosInfinity"
| "js_negate (Finite q) = Finite (- q)"

subsection \<open>Rounding to a double, and the arithmetic of Numbers\<close>

text \<open>
  The finite doubles are the numbers \<open>n * 2^x\<close> with \<open>|n| < 2^53\<close> and \<open>x\<close> from -1074
  to 971. The result of an operation is the double nearest to the mathematical result, a
  tie going to the double with even \<open>n\<close>; a result that rounds to \<open>2^1024\<close> or beyond is an
  infinity.

  \<open>bit_length a\<close> is the number of binary digits of a positive integer, and
  \<open>binary_exponent a b\<close> the exponent \<open>e\<close> with \<open>2^e \<le> a / b < 2^(e+1)\<close>, for positive \<open>a\<close>
  and \<open>b\<close>.
\<close>

function bit_length :: "int \<Rightarrow> nat" where
  "bit_length a = (if a \<le> 0 then 0 else Suc (bit_length (a div 2)))"
  by pat_completeness auto

termination
  by (relation "measure nat") auto

declare bit_length.simps [simp del]

definition binary_exponent :: "int \<Rightarrow> int \<Rightarrow> int" where
  "binary_exponent a b =
     (let d = int (bit_length a) - int (bit_length b)
      in if (if 0 \<le> d then 2 ^ nat d * b \<le> a else b \<le> a * 2 ^ nat (- d)) then d else d - 1)"

text \<open>The integer nearest to \<open>a / b\<close> for positive \<open>b\<close>, a tie going to the even one.\<close>

definition round_half_even :: "int \<Rightarrow> int \<Rightarrow> int" where
  "round_half_even a b =
     (let f = a div b; r = a mod b
      in if 2 * r < b then f
         else if b < 2 * r then f + 1
         else if even f then f else f + 1)"

text \<open>The value \<open>n * 2^x\<close>.\<close>

definition scale2 :: "int \<Rightarrow> int \<Rightarrow> rat" where
  "scale2 n x = (if 0 \<le> x then of_int (n * 2 ^ nat x) else Fract n (2 ^ nat (- x)))"

text \<open>
  Round to nearest, ties to even. The unit \<open>2^x\<close> of the result is 52 binary places below
  the leading digit of the number, and \<open>2^-1074\<close> for the numbers below \<open>2^-1022\<close>.
\<close>

definition round_to_double :: "rat \<Rightarrow> jsnum" where
  "round_to_double q =
     (case quotient_of q of
        (a, b) \<Rightarrow>
          if a = 0 then Finite 0
          else
            let x = max (binary_exponent \<bar>a\<bar> b) (- 1022) - 52;
                n = (if 0 \<le> x then round_half_even a (b * 2 ^ nat x)
                     else round_half_even (a * 2 ^ nat (- x)) b)
            in if 0 \<le> x \<and> 2 ^ 1024 \<le> \<bar>n\<bar> * 2 ^ nat x
               then (if 0 < n then PosInfinity else NegInfinity)
               else Finite (scale2 n x))"

text \<open>\<open>x + y\<close> and \<open>x - y\<close> on Numbers.\<close>

fun js_add :: "jsnum \<Rightarrow> jsnum \<Rightarrow> jsnum" where
  "js_add (Finite a) (Finite b) = round_to_double (a + b)"
| "js_add NaN y = NaN"
| "js_add x NaN = NaN"
| "js_add PosInfinity NegInfinity = NaN"
| "js_add NegInfinity PosInfinity = NaN"
| "js_add PosInfinity y = PosInfinity"
| "js_add NegInfinity y = NegInfinity"
| "js_add x PosInfinity = PosInfinity"
| "js_add x NegInfinity = NegInfinity"

definition js_sub :: "jsnum \<Rightarrow> jsnum \<Rightarrow> jsnum" where
  "js_sub x y = js_add x (js_negate y)"

text \<open>\<open>x - 1\<close> on Numbers, as in \<open>month - 1\<close>.\<close>

definition js_pred :: "jsnum \<Rightarrow> jsnum" where
  "js_pred x = js_sub x (Finite 1)"

text \<open>
  ToIntegerOrInfinity, for the arguments of the Date functions: a finite Number is
  truncated towards zero; the result \<open>None\<close> stands for NaN and the infinities, which
  every Date function below answers with NaN.
\<close>

definition js_truncate :: "rat \<Rightarrow> int" where
  "js_truncate q = (if 0 \<le> q then \<lfloor>q\<rfloor> else \<lceil>q\<rceil>)"

fun ToIntegerOrInfinity :: "jsnum \<Rightarrow> int option" where
  "ToIntegerOrInfinity (Finite q) = Some (js_truncate q)"
| "ToIntegerOrInfinity n = None"

subsection \<open>White space, trimming and splitting\<close>

text \<open>
  The white space and line terminator characters of ECMAScript that fit in 8 bits: TAB, LF,
  VT, FF, CR, SPACE and NBSP. \<open>String.prototype.trim\<close>, the regular expression class
  \<open>\s\<close> and the string-to-number conversion all use this set.
\<close>

definition is_js_space :: "char \<Rightarrow> bool" where
  "is_js_space c = (of_char c \<in> {9, 10, 11, 12, 13, 32, 160 :: nat})"

definition js_trim :: "string \<Rightarrow> string" where
  "js_trim s = rev (dropWhile is_js_space (rev (dropWhile is_js_space s)))"

text \<open>\<open>s.split(c)\<close> for a one-character separator.\<close>

fun split_on :: "char \<Rightarrow> string \<Rightarrow> string list" where
  "split_on c [] = [[]]"
| "split_on c (x # xs) =
     (if x = c then [] # split_on c xs
      else (case split_on c xs of
              [] \<Rightarrow> [[x]]
            | h # t \<Rightarrow> (x # h) # t))"

definition startsWith :: "string \<Rightarrow> string \<Rightarrow> bool" where
  "startsWith s p = (take (length p) s = p)"

text \<open>
  \<open>text.split(/\s+/)[0]\<close>: the characters before the first white space (the text it is
  applied to has been trimmed and starts with a slash).
\<close>

definition first_token :: "string \<Rightarrow> string" where
  "first_token s = takeWhile (\<lambda>c. \<not> is_js_space c) s"

subsection \<open>String to Number\<close>

definition is_digit :: "char \<Rightarrow> bool" where
  "is_digit c = (c \<in> set ''0123456789'')"

definition is_hex_digit :: "char \<Rightarrow> bool" where
  "is_hex_digit c = (c \<in> set ''0123456789abcdefABCDEF'')"

definition is_octal_digit :: "char \<Rightarrow> bool" where
  "is_octal_digit c = (c \<in> set ''01234567'')"

definition is_binary_digit :: "char \<Rightarrow> bool" where
  "is_binary_digit c = (c \<in> set ''01'')"

definition digit_value :: "char \<Rightarrow> int" where
  "digit_value c =
     (if c \<in> set ''abcdef'' then int (of_char c) - 87
      else if c \<in> set ''ABCDEF'' then int (of_char c) - 55
      else int (of_char c) - 48)"

definition digits_value :: "int \<Rightarrow> string \<Rightarrow> int" where
  "digits_value base ds = foldl (\<lambda>a c. base * a + digit_value c) 0 ds"

text \<open>The value \<open>m * 10^e\<close> of a digit string \<open>m\<close> with decimal exponent \<open>e\<close>.\<close>

definition scale10 :: "int \<Rightarrow> int \<Rightarrow> rat" where
  "scale10 m e = (if 0 \<le> e then of_int (m * 10 ^ nat e) else Fract m (10 ^ nat (- e)))"

text \<open>ExponentPart (optional): \<open>e\<close> or \<open>E\<close>, an optional sign, and at least one digit.\<close>

definition ExponentPart :: "string \<Rightarrow> int option" where
  "ExponentPart s =
     (case s of
        [] \<Rightarrow> Some 0
      | c # r \<Rightarrow>
          if c = CHR ''e'' \<or> c = CHR ''E'' then
            (case r of
               [] \<Rightarrow> None
             | g # ds \<Rightarrow>
                 if g = CHR ''+'' \<and> ds \<noteq> [] \<and> list_all is_digit ds
                   then Some (digits_value 10 ds)
                 else if g = CHR ''-'' \<and> ds \<noteq> [] \<and> list_all is_digit ds
                   then Some (- digits_value 10 ds)
                 else if list_all is_digit r then Some (digits_value 10 r)
                 else None)
          else None)"

text \<open>
  StrUnsignedDecimalLiteral: \<open>Infinity\<close>, or digits with an optional fraction and
  exponent (\<open>12\<close>, \<open>12.\<close>, \<open>12.50\<close>, \<open>.5\<close>, \<open>1e3\<close>).
\<close>

definition StrUnsignedDecimalLiteral :: "string \<Rightarrow> jsnum" where
  "StrUnsignedDecimalLiteral s =
     (if s = ''Infinity'' then PosInfinity
      else
        let ip = takeWhile is_digit s;
            r1 = dropWhile is_digit s;
            dot = (r1 \<noteq> [] \<and> hd r1 = CHR ''.'');
            fp = (if dot then takeWhile is_digit (tl r1) else []);
            r2 = (if dot then dropWhile is_digit (tl r1) else r1)
        in if ip = [] \<and> fp = [] then NaN
           else (case ExponentPart r2 of
                   None \<Rightarrow> NaN
                 | Some e \<Rightarrow>
                     round_to_double (scale10 (digits_value 10 (ip @ fp)) (e - int (length fp)))))"

definition StrDecimalLiteral :: "string \<Rightarrow> jsnum" where
  "StrDecimalLiteral s =
     (case s of
        [] \<Rightarrow> NaN
      | c # r \<Rightarrow>
          if c = CHR ''+'' then StrUnsignedDecimalLiteral r
          else if c = CHR ''-'' then js_negate (StrUnsignedDecimalLiteral r)
          else StrUnsignedDecimalLiteral s)"

text \<open>NonDecimalIntegerLiteral: \<open>0x\<close>, \<open>0o\<close> or \<open>0b\<close> and digits of that base; no sign.\<close>

definition NonDecimalIntegerLiteral :: "string \<Rightarrow> jsnum option" where
  "NonDecimalIntegerLiteral s =
     (case s of
        z # p # ds \<Rightarrow>
          if z = CHR ''0'' \<and> ds \<noteq> [] then
            (if (p = CHR ''x'' \<or> p = CHR ''X'') \<and> list_all is_hex_digit ds
               then Some (round_to_double (of_int (digits_value 16 ds)))
             else if (p = CHR ''o'' \<or> p = CHR ''O'') \<and> list_all is_octal_digit ds
               then Some (round_to_double (of_int (digits_value 8 ds)))
             else if (p = CHR ''b'' \<or> p = CHR ''B'') \<and> list_all is_binary_digit ds
               then Some (round_to_double (of_int (digits_value 2 ds)))
             else None)
          else None
      | _ \<Rightarrow> None)"

text \<open>
  \<open>Number(s)\<close> for a string: white space is stripped; the empty string is \<open>0\<close>; what is
  not a numeric literal is NaN.
\<close>

definition js_Number :: "string \<Rightarrow> jsnum" where
  "js_Number s =
     (let t = js_trim s in
      if t = [] then Finite 0
      else (case NonDecimalIntegerLiteral t of
              Some n \<Rightarrow> n
            | None \<Rightarrow> StrDecimalLiteral t))"

subsection \<open>Number to String, for integers\<close>

fun string_of_nat :: "nat \<Rightarrow> string" where
  "string_of_nat n =
     (if n < 10 then [char_of (48 + n)]
      else string_of_nat (n div 10) @ [char_of (48 + n mod 10)])"

declare string_of_nat.simps [simp del]

text \<open>The decimal digits of an integer (what a template literal prints below \<open>10^21\<close>).\<close>

definition string_of_int :: "int \<Rightarrow> string" where
  "string_of_int i = (if i < 0 then CHR ''-'' # string_of_nat (nat (- i)) else string_of_nat (nat i))"

definition padStart :: "nat \<Rightarrow> char \<Rightarrow> string \<Rightarrow> string" where
  "padStart n c s = replicate (n - length s) c @ s"

subsection \<open>Objects as ordered property lists\<close>

text \<open>
  An object literal is the list of its own properties in insertion order; its prototype
  is \<open>Object.prototype\<close>, whose own property names are listed here. The operator
  \<open>in\<close> looks a name up in the object and then in its prototype chain.
\<close>

definition Object_prototype_keys :: "string list" where
  "Object_prototype_keys =
     [''constructor'', ''__defineGetter__'', ''__defineSetter__'', ''hasOwnProperty'',
      ''__lookupGetter__'', ''__lookupSetter__'', ''isPrototypeOf'', ''propertyIsEnumerable'',
      ''toString'', ''valueOf'', ''__proto__'', ''toLocaleString'']"

definition js_in :: "string \<Rightarrow> (string \<times> 'a) list \<Rightarrow> bool" where
  "js_in k obj = (k \<in> set (map fst obj) \<or> k \<in> set Object_prototype_keys)"

text \<open>
  \<open>obj[k] = v\<close> on an object whose values are Numbers: an existing own property is
  overwritten in place, a new one is appended. The name \<open>__proto__\<close> reaches the setter
  inherited from \<open>Object.prototype\<close>, which ignores a value that is not an object, so no
  own property is created.
\<close>

fun js_update :: "string \<Rightarrow> 'a \<Rightarrow> (string \<times> 'a) list \<Rightarrow> (string \<times> 'a) list" where
  "js_update k v [] = [(k, v)]"
| "js_update k v ((k', v') # ps) = (if k' = k then (k, v) # ps else (k', v') # js_update k v ps)"

definition js_set :: "string \<Rightarrow> 'a \<Rightarrow> (string \<times> 'a) list \<Rightarrow> (string \<times> 'a) list" where
  "js_set k v obj = (if k = ''__proto__'' then obj else js_update k v obj)"

text \<open>
  \<open>Object.entries\<close>, \<open>Object.keys\<close> and \<open>Object.values\<close> list the own properties whose
  names are array indices first, in ascending order of the index, and then the other
  properties in insertion order. An array index is the canonical decimal string of an
  integer from 0 to \<open>2^32 - 2\<close>.
\<close>

definition is_array_index :: "string \<Rightarrow> bool" where
  "is_array_index k =
     (k \<noteq> [] \<and> list_all is_digit k \<and> (k = ''0'' \<or> hd k \<noteq> CHR ''0'')
      \<and> digits_value 10 k \<le> 4294967294)"

definition Object_entries :: "(string \<times> 'a) list \<Rightarrow> (string \<times> 'a) list" where
  "Object_entries obj =
     sort_key (\<lambda>p. digits_value 10 (fst p)) (filter (\<lambda>p. is_array_index (fst p)) obj)
     @ filter (\<lambda>p. \<not> is_array_index (fst p)) obj"

definition Object_values :: "(string \<times> 'a) list \<Rightarrow> 'a list" where
  "Object_values obj = map snd (Object_entries obj)"

definition Object_keys :: "(string \<times> 'a) list \<Rightarrow> string list" where
  "Object_keys obj = map fst (Object_entries obj)"

section \<open>Dates\<close>

text \<open>
  The Date functions of ECMAScript, on whole days: every Date the program builds is at
  midnight, so a time value is given by its day number (days since 1 January 1970) and
  \<open>None\<close> is the invalid Date (time value NaN). The local time zone of the runtime is
  taken to be UTC.
\<close>

definition DaysInYear :: "int \<Rightarrow> int" where
  "DaysInYear y =
     (if y mod 4 \<noteq> 0 then 365
      else if y mod 100 \<noteq> 0 then 366
      else if y mod 400 \<noteq> 0 then 365
      else 366)"

definition DayFromYear :: "int \<Rightarrow> int" where
  "DayFromYear y =
     365 * (y - 1970) + (y - 1969) div 4 - (y - 1901) div 100 + (y - 1601) div 400"

text \<open>
  YearFromTime: the largest year whose first day is not after the given day. Every year
  has 365 or 366 days, so that year lies in the window searched here.
\<close>

definition YearFromDay :: "int \<Rightarrow> int" where
  "YearFromDay d =
     (let lo = 1970 + min (d div 366) (d div 365) - 1;
          hi = 1970 + max (d div 366) (d div 365) + 1
      in last (filter (\<lambda>y. DayFromYear y \<le> d) [lo..hi]))"

definition DayWithinYear :: "int \<Rightarrow> int" where
  "DayWithinYear d = d - DayFromYear (YearFromDay d)"

definition InLeapYear :: "int \<Rightarrow> int" where
  "InLeapYear d = (if DaysInYear (YearFromDay d) = 366 then 1 else 0)"

definition MonthFromDay :: "int \<Rightarrow> int" where
  "MonthFromDay d =
     (let w = DayWithinYear d; l = InLeapYear d in
      if w < 31 then 0
      else if w < 59 + l then 1
      else if w < 90 + l then 2
      else if w < 120 + l then 3
      else if w < 151 + l then 4
      else if w < 181 + l then 5
      else if w < 212 + l then 6
      else if w < 243 + l then 7
      else if w < 273 + l then 8
      else if w < 304 + l then 9
      else if w < 334 + l then 10
      else 11)"

definition DateFromDay :: "int \<Rightarrow> int" where
  "DateFromDay d =
     (let w = DayWithinYear d; l = InLeapYear d; m = MonthFromDay d in
      if m = 0 then w + 1
      else if m = 1 then w - 30
      else if m = 2 then w - 58 - l
      else if m = 3 then w - 89 - l
      else if m = 4 then w - 119 - l
      else if m = 5 then w - 150 - l
      else if m = 6 then w - 180 - l
      else if m = 7 then w - 211 - l
      else if m = 8 then w - 242 - l
      else if m = 9 then w - 272 - l
      else if m = 10 then w - 303 - l
      else w - 333 - l)"

definition WeekDay :: "int \<Rightarrow> int" where
  "WeekDay d = (d + 4) mod 7"

text \<open>The day number of the first day of month \<open>mn\<close> (0 to 11) within its year.\<close>

definition month_start :: "int \<Rightarrow> int \<Rightarrow> int" where
  "month_start ym mn =
     (let l = (if DaysInYear ym = 366 then 1 else 0) in
      if mn = 0 then 0
      else if mn = 1 then 31
      else if mn = 2 then 59 + l
      else if mn = 3 then 90 + l
      else if mn = 4 then 120 + l
      else if mn = 5 then 151 + l
      else if mn = 6 then 181 + l
      else if mn = 7 then 212 + l
      else if mn = 8 then 243 + l
      else if mn = 9 then 273 + l
      else if mn = 10 then 304 + l
      else 334 + l)"

text \<open>MakeDay on integers: months outside 0 to 11 carry into the year, days roll over.\<close>

definition MakeDay :: "int \<Rightarrow> int \<Rightarrow> int \<Rightarrow> int" where
  "MakeDay y m dt =
     (let ym = y + m div 12; mn = m mod 12
      in DayFromYear ym + month_start ym mn + dt - 1)"

text \<open>MakeFullYear: a year from 0 to 99 means a year of the twentieth century.\<close>

definition MakeFullYear :: "int \<Rightarrow> int" where
  "MakeFullYear y = (if 0 \<le> y \<and> y \<le> 99 then 1900 + y else y)"

text \<open>TimeClip: a time value is at most \<open>8.64e15\<close> milliseconds, 100 000 000 days, from the epoch.\<close>

definition TimeClip :: "int \<Rightarrow> int option" where
  "TimeClip d = (if \<bar>d\<bar> \<le> 100000000 then Some d else None)"

text \<open>\<open>Date.UTC(year, month, day)\<close> and \<open>new Date(year, month, day)\<close> build the same day.\<close>

definition Date_UTC :: "jsnum \<Rightarrow> jsnum \<Rightarrow> jsnum \<Rightarrow> int option" where
  "Date_UTC y m dt =
     (case (ToIntegerOrInfinity y, ToIntegerOrInfinity m, ToIntegerOrInfinity dt) of
        (Some yi, Some mi, Some di) \<Rightarrow> TimeClip (MakeDay (MakeFullYear yi) mi di)
      | _ \<Rightarrow> None)"

definition new_Date :: "jsnum \<Rightarrow> jsnum \<Rightarrow> jsnum \<Rightarrow> int option" where
  "new_Date y m dt = Date_UTC y m dt"

definition getDate :: "int option \<Rightarrow> int option" where
  "getDate t = map_option DateFromDay t"

definition getUTCDay :: "int option \<Rightarrow> int option" where
  "getUTCDay t = map_option WeekDay t"

definition num :: "int \<Rightarrow> jsnum" where
  "num i = Finite (of_int i)"

section \<open>Category and budget configuration\<close>

datatype kind = daily | monthly | other

definition CATEGORIES :: "(string \<times> kind) list" where
  "CATEGORIES =
     [(''Meals'', daily), (''Drinks'', daily),
      (''Groceries'', monthly), (''Utilities'', monthly), (''Transport'', monthly),
      (''Declan'', monthly), (''Myat'', monthly),
      (''Other'', other)]"

definition WEEKDAY_DAILY_BUDGET :: rat where
  "WEEKDAY_DAILY_BUDGET = 50"

definition WEEKEND_DAILY_BUDGET :: rat where
  "WEEKEND_DAILY_BUDGET = 80"

definition MONTHLY_CATEGORY_BUDGETS :: "(string \<times> rat) list" where
  "MONTHLY_CATEGORY_BUDGETS =
     [(''Groceries'', 300), (''Utilities'', 150), (''Transport'', 218),
      (''Declan'', 100), (''Myat'', 200)]"

definition DAILY_CATEGORIES :: "string list" where
  "DAILY_CATEGORIES = map fst (filter (\<lambda>(name, meta). meta = daily) CATEGORIES)"

definition MONTHLY_CATEGORIES :: "string list" where
  "MONTHLY_CATEGORIES = map fst (filter (\<lambda>(name, meta). meta = monthly) CATEGORIES)"

definition OTHER_CATEGORIES :: "string list" where
  "OTHER_CATEGORIES = map fst (filter (\<lambda>(name, meta). meta = other) CATEGORIES)"

definition SG_TIMEZONE :: string where
  "SG_TIMEZONE = ''Asia/Singapore''"

section \<open>Calendar helpers of the bot\<close>

text \<open>
  \<open>nowSgLocal()\<close> reads the clock; its result is a parameter of every operation that
  calls it.
\<close>

record sg_now =
  tsUtc :: string
  tsSgDate :: string
  tsSgMonth :: string
  now_year :: int
  now_month :: int

text \<open>The test of the regular expression \<open>/^\d{4}-\d{2}-\d{2}$/\<close>.\<close>

definition matches_date_pattern :: "string \<Rightarrow> bool" where
  "matches_date_pattern s =
     (case s of
        [y1, y2, y3, y4, h1, m1, m2, h2, d1, d2] \<Rightarrow>
          is_digit y1 \<and> is_digit y2 \<and> is_digit y3 \<and> is_digit y4 \<and> h1 = CHR ''-'' \<and>
          is_digit m1 \<and> is_digit m2 \<and> h2 = CHR ''-'' \<and> is_digit d1 \<and> is_digit d2
      | _ \<Rightarrow> False)"

definition normalizeSgDateString :: "string \<Rightarrow> string option" where
  "normalizeSgDateString dateStr = (if \<not> matches_date_pattern dateStr then None else Some dateStr)"

text \<open>
  The loop body of \<open>countWeekdaysWeekends\<close>; an invalid Date has weekday NaN, which is
  neither 0 nor 6.
\<close>

definition count_day :: "int \<Rightarrow> int \<Rightarrow> int \<Rightarrow> nat \<times> nat \<Rightarrow> nat \<times> nat" where
  "count_day year month day acc =
     (let d = Date_UTC (num year) (num (month - 1)) (num day);
          weekday = getUTCDay d
      in if weekday = Some 0 \<or> weekday = Some 6 then (fst acc, snd acc + 1)
         else (fst acc + 1, snd acc))"

text \<open>
  The result is the pair \<open>(weekdays, weekends)\<close>. When \<open>daysInMonth\<close> is NaN the test
  \<open>day <= daysInMonth\<close> fails at once.
\<close>

definition countWeekdaysWeekends :: "int \<Rightarrow> int \<Rightarrow> nat \<times> nat" where
  "countWeekdaysWeekends year month =
     (case getDate (new_Date (num year) (num month) (num 0)) of
        None \<Rightarrow> (0, 0)
      | Some daysInMonth \<Rightarrow> fold (count_day year month) [1..daysInMonth] (0, 0))"

text \<open>Array destructuring: a missing element is \<open>undefined\<close>, which a Date function reads as NaN.\<close>

definition element :: "jsnum list \<Rightarrow> nat \<Rightarrow> jsnum" where
  "element xs i = (if i < length xs then xs ! i else NaN)"

definition dailyBudgetForSgDateString :: "string \<Rightarrow> rat" where
  "dailyBudgetForSgDateString dateStr =
     (let parts = map js_Number (split_on (CHR ''-'') dateStr);
          d = Date_UTC (element parts 0) (js_pred (element parts 1)) (element parts 2);
          weekday = getUTCDay d
      in if weekday = Some 0 \<or> weekday = Some 6 then WEEKEND_DAILY_BUDGET
         else WEEKDAY_DAILY_BUDGET)"

definition monthlyDailyBucketBudget :: "int \<Rightarrow> int \<Rightarrow> rat" where
  "monthlyDailyBucketBudget year month =
     (case countWeekdaysWeekends year month of
        (weekdays, weekends) \<Rightarrow>
          of_nat weekdays * WEEKDAY_DAILY_BUDGET + of_nat weekends * WEEKEND_DAILY_BUDGET)"

section \<open>Storage\<close>

text \<open>
  The two tables of the schema. A row of \<open>expenses\<close> is a record (its generated id is
  its position in the table); \<open>user_state\<close> holds one row per user id, the pair of
  \<open>step\<close> and the nullable \<open>category\<close>. The column \<open>amount\<close> is REAL: the amount of a
  row is the value of a finite double.
\<close>

record expense =
  ts_utc :: string
  ts_sg_date :: string
  ts_sg_month :: string
  user_id :: int
  category :: string
  amount :: rat

text \<open>The summaries that the reports and the HTTP endpoints return.\<close>

record 'n DailySummaryData =
  date :: string
  timezone :: string
  budget_daily :: 'n
  spent_daily :: 'n
  remaining_daily :: 'n
  by_category :: "(string \<times> 'n) list"

record MonthlySummaryData =
  year_of :: int
  month_of :: int
  timezone_of :: string
  weekdays :: nat
  weekends :: nat
  weekday_daily_budget :: rat
  weekend_daily_budget :: rat
  monthly_daily_budget :: rat
  fixed_monthly_budgets :: "(string \<times> rat) list"
  spent_daily_of :: rat
  spent_daily_by_category :: "(string \<times> rat) list"
  spent_monthly :: rat
  spent_monthly_by_category :: "(string \<times> rat) list"
  spent_other :: rat
  spent_other_by_category :: "(string \<times> rat) list"
  total_budget_tracked :: rat
  total_spent_tracked :: rat
  remaining_tracked :: rat

datatype reply =
    UnknownCommand
  | EnterAmount string
  | TapCategory
  | EnterValidNumber
  | Recorded rat string
  | UsageHint
  | Welcome
  | ChooseCategory
  | TodayReport "rat DailySummaryData"
  | MonthReport MonthlySummaryData

text \<open>
  The world a unit of work runs in: the two tables, and the messages handed to Telegram
  (chat id, message, and the reply keyboard when one is attached).
\<close>

record world =
  expenses :: "expense list"
  user_state :: "(int \<times> string \<times> string option) list"
  outbox :: "(int \<times> reply \<times> string list list option) list"

definition insertExpense :: "sg_now \<Rightarrow> int \<Rightarrow> string \<Rightarrow> rat \<Rightarrow> world \<Rightarrow> world" where
  "insertExpense now userId cat amt w =
     w\<lparr>expenses := expenses w @
          [\<lparr>ts_utc = tsUtc now, ts_sg_date = tsSgDate now, ts_sg_month = tsSgMonth now,
            user_id = userId, category = cat, amount = amt\<rparr>]\<rparr>"

definition getUserState :: "world \<Rightarrow> int \<Rightarrow> (string \<times> string option) option" where
  "getUserState w userId = map_of (user_state w) userId"

text \<open>The upsert on the primary key \<open>user_id\<close>.\<close>

fun upsert :: "int \<Rightarrow> string \<times> string option \<Rightarrow> (int \<times> string \<times> string option) list
    \<Rightarrow> (int \<times> string \<times> string option) list" where
  "upsert u r [] = [(u, r)]"
| "upsert u r ((u', r') # rows) = (if u' = u then (u, r) # rows else (u', r') # upsert u r rows)"

definition setUserState :: "int \<Rightarrow> string \<Rightarrow> string option \<Rightarrow> world \<Rightarrow> world" where
  "setUserState userId stp cat w = w\<lparr>user_state := upsert userId (stp, cat) (user_state w)\<rparr>"

definition clearUserState :: "int \<Rightarrow> world \<Rightarrow> world" where
  "clearUserState userId w = w\<lparr>user_state := filter (\<lambda>row. fst row \<noteq> userId) (user_state w)\<rparr>"

definition sendMessage :: "int \<Rightarrow> reply \<Rightarrow> string list list option \<Rightarrow> world \<Rightarrow> world" where
  "sendMessage chatId msg replyMarkup w = w\<lparr>outbox := outbox w @ [(chatId, msg, replyMarkup)]\<rparr>"

text \<open>
  \<open>SELECT category, SUM(amount) AS total FROM expenses WHERE <column> = ? AND category IN
  (...) GROUP BY category\<close>: one row per category that has a matching expense. SQLite
  forms the groups by sorting on the category, so the rows come in ascending order of the
  category, strings being compared character by character.
\<close>

definition grouped_sums :: "(expense \<Rightarrow> string) \<Rightarrow> string \<Rightarrow> string list \<Rightarrow> expense list
    \<Rightarrow> (string \<times> rat) list" where
  "grouped_sums col k categories tbl =
     (let sel = filter (\<lambda>e. col e = k \<and> category e \<in> set categories) tbl
      in map (\<lambda>c. (c, sum_list (map amount (filter (\<lambda>e. category e = c) sel))))
           (sort (remdups (map category sel))))"

section \<open>Aggregation\<close>

text \<open>
  The result of both functions is the pair \<open>(total, byCategory)\<close>. Each is its guard on
  the category list, the grouped query, and the loop over the rows of the result;
  \<open>date_row\<close> and \<open>month_row\<close> are the bodies of the two loops.

  In this section and the next the sums are taken without rounding. The section after
  them repeats the query, the two loops and the daily summary with the addition of
  doubles, and the section on exact sums shows when the two coincide.
\<close>

definition date_row :: "string \<times> rat \<Rightarrow> rat \<times> (string \<times> rat) list \<Rightarrow> rat \<times> (string \<times> rat) list" where
  "date_row row acc = (case row of (cat, amt) \<Rightarrow> (fst acc + amt, js_set cat amt (snd acc)))"

definition sumForDate_rows :: "(string \<times> rat) list \<Rightarrow> rat \<times> (string \<times> rat) list" where
  "sumForDate_rows results = fold date_row results (0, [])"

definition sumForDate :: "world \<Rightarrow> string \<Rightarrow> string list \<Rightarrow> rat \<times> (string \<times> rat) list" where
  "sumForDate w sgDate categories =
     (if categories = [] then (0, [])
      else sumForDate_rows (grouped_sums ts_sg_date sgDate categories (expenses w)))"

definition month_row :: "string \<times> 'n \<Rightarrow> (string \<times> 'n) list \<Rightarrow> (string \<times> 'n) list" where
  "month_row row byCategory = (case row of (cat, amt) \<Rightarrow> js_set cat amt byCategory)"

definition sumForMonth_rows :: "(string \<times> rat) list \<Rightarrow> rat \<times> (string \<times> rat) list" where
  "sumForMonth_rows results =
     (let byCategory = fold month_row results [];
          grandTotal = foldl (\<lambda>a b. a + b) 0 (Object_values byCategory)
      in (grandTotal, byCategory))"

definition sumForMonth :: "world \<Rightarrow> string \<Rightarrow> string list \<Rightarrow> rat \<times> (string \<times> rat) list" where
  "sumForMonth w sgMonth categories =
     (if categories = [] then (0, [])
      else sumForMonth_rows (grouped_sums ts_sg_month sgMonth categories (expenses w)))"

section \<open>Summaries\<close>

datatype error = InvalidDate | InvalidMonth

text \<open>
  The test \<open>if (dateStr)\<close> takes an absent parameter and the empty string alike to mean
  today.
\<close>

definition getDailySummaryData :: "world \<Rightarrow> sg_now \<Rightarrow> string option \<Rightarrow> error + rat DailySummaryData" where
  "getDailySummaryData w now dateStr =
     (case (case dateStr of
              None \<Rightarrow> Inr (tsSgDate now)
            | Some s \<Rightarrow>
                if s = [] then Inr (tsSgDate now)
                else (case normalizeSgDateString s of
                        None \<Rightarrow> Inl InvalidDate
                      | Some normalized \<Rightarrow> Inr normalized)) of
        Inl e \<Rightarrow> Inl e
      | Inr sgDate \<Rightarrow>
          (let budget = dailyBudgetForSgDateString sgDate;
               r = sumForDate w sgDate DAILY_CATEGORIES;
               spent = fst r;
               remaining = budget - spent
           in Inr \<lparr>date = sgDate, timezone = SG_TIMEZONE, budget_daily = budget,
                   spent_daily = spent, remaining_daily = remaining, by_category = snd r\<rparr>))"

text \<open>
  The HTTP endpoint \<open>GET /api/summary/daily\<close>: status 400 with the error, or status 200
  with the summary.
\<close>

datatype http_response = Response nat "error + rat DailySummaryData"

definition apiDailySummary :: "world \<Rightarrow> sg_now \<Rightarrow> string option \<Rightarrow> http_response" where
  "apiDailySummary w now dateStr =
     (case (case dateStr of
              None \<Rightarrow> Inr (tsSgDate now)
            | Some s \<Rightarrow>
                if s = [] then Inr (tsSgDate now)
                else (case normalizeSgDateString s of
                        None \<Rightarrow> Inl InvalidDate
                      | Some normalized \<Rightarrow> Inr normalized)) of
        Inl e \<Rightarrow> Response 400 (Inl e)
      | Inr sgDate \<Rightarrow>
          (let budget = dailyBudgetForSgDateString sgDate;
               r = sumForDate w sgDate DAILY_CATEGORIES;
               spent = fst r;
               remaining = budget - spent
           in Response 200
                (Inr \<lparr>date = sgDate, timezone = SG_TIMEZONE, budget_daily = budget,
                      spent_daily = spent, remaining_daily = remaining, by_category = snd r\<rparr>)))"

text \<open>
  Year and month are integers here, so \<open>Number.isFinite\<close> holds of both and the guard
  is the range test on the month.
\<close>

definition getMonthlySummaryData :: "world \<Rightarrow> sg_now \<Rightarrow> int option \<Rightarrow> int option
    \<Rightarrow> error + MonthlySummaryData" where
  "getMonthlySummaryData w now yr mo =
     (let y = (case yr of None \<Rightarrow> now_year now | Some v \<Rightarrow> v);
          m = (case mo of None \<Rightarrow> now_month now | Some v \<Rightarrow> v)
      in if m < 1 \<or> m > 12 then Inl InvalidMonth
         else
           (let sgMonth = string_of_int y @ ''-'' @ padStart 2 (CHR ''0'') (string_of_int m);
                monthlyDaily = monthlyDailyBucketBudget y m;
                rd = sumForMonth w sgMonth DAILY_CATEGORIES;
                rm = sumForMonth w sgMonth MONTHLY_CATEGORIES;
                ro = sumForMonth w sgMonth OTHER_CATEGORIES;
                spentDaily = fst rd;
                spentMonthly = fst rm;
                spentOther = fst ro;
                fixedBudgetTotal = foldl (\<lambda>a b. a + b) 0 (Object_values MONTHLY_CATEGORY_BUDGETS);
                totalBudgetTracked = monthlyDaily + fixedBudgetTotal;
                totalSpentTracked = spentDaily + spentMonthly;
                remainingTracked = totalBudgetTracked - totalSpentTracked;
                wk = countWeekdaysWeekends y m
            in Inr \<lparr>year_of = y, month_of = m, timezone_of = SG_TIMEZONE,
                    weekdays = fst wk, weekends = snd wk,
                    weekday_daily_budget = WEEKDAY_DAILY_BUDGET,
                    weekend_daily_budget = WEEKEND_DAILY_BUDGET,
                    monthly_daily_budget = monthlyDaily,
                    fixed_monthly_budgets = MONTHLY_CATEGORY_BUDGETS,
                    spent_daily_of = spentDaily, spent_daily_by_category = snd rd,
                    spent_monthly = spentMonthly, spent_monthly_by_category = snd rm,
                    spent_other = spentOther, spent_other_by_category = snd ro,
                    total_budget_tracked = totalBudgetTracked,
                    total_spent_tracked = totalSpentTracked,
                    remaining_tracked = remainingTracked\<rparr>))"

section \<open>The sums in double arithmetic\<close>

text \<open>
  The column \<open>amount\<close> is REAL, and \<open>SUM(amount)\<close>, \<open>total += amt\<close>, the \<open>reduce\<close> over
  \<open>Object.values\<close> and \<open>budget - spent\<close> are operations on doubles. \<open>SUM\<close> adds the
  amounts of a group one after the other, from 0. (Where no sum within a group is rounded,
  as in every example below and under the condition \<open>adds_exactly\<close>, the order of the
  amounts and a compensation of the rounding error, as recent versions of SQLite apply
  one, make no difference to the result.)
\<close>

definition SUM_double :: "rat list \<Rightarrow> jsnum" where
  "SUM_double amounts = foldl js_add (Finite 0) (map Finite amounts)"

definition grouped_sums_double :: "(expense \<Rightarrow> string) \<Rightarrow> string \<Rightarrow> string list \<Rightarrow> expense list
    \<Rightarrow> (string \<times> jsnum) list" where
  "grouped_sums_double col k categories tbl =
     (let sel = filter (\<lambda>e. col e = k \<and> category e \<in> set categories) tbl
      in map (\<lambda>c. (c, SUM_double (map amount (filter (\<lambda>e. category e = c) sel))))
           (sort (remdups (map category sel))))"

definition date_row_double :: "string \<times> jsnum \<Rightarrow> jsnum \<times> (string \<times> jsnum) list
    \<Rightarrow> jsnum \<times> (string \<times> jsnum) list" where
  "date_row_double row acc =
     (case row of (cat, amt) \<Rightarrow> (js_add (fst acc) amt, js_set cat amt (snd acc)))"

definition sumForDate_rows_double :: "(string \<times> jsnum) list \<Rightarrow> jsnum \<times> (string \<times> jsnum) list" where
  "sumForDate_rows_double results = fold date_row_double results (Finite 0, [])"

definition sumForDate_double :: "world \<Rightarrow> string \<Rightarrow> string list \<Rightarrow> jsnum \<times> (string \<times> jsnum) list" where
  "sumForDate_double w sgDate categories =
     (if categories = [] then (Finite 0, [])
      else sumForDate_rows_double (grouped_sums_double ts_sg_date sgDate categories (expenses w)))"

definition sumForMonth_rows_double :: "(string \<times> jsnum) list \<Rightarrow> jsnum \<times> (string \<times> jsnum) list" where
  "sumForMonth_rows_double results =
     (let byCategory = fold month_row results [];
          grandTotal = foldl js_add (Finite 0) (Object_values byCategory)
      in (grandTotal, byCategory))"

definition sumForMonth_double :: "world \<Rightarrow> string \<Rightarrow> string list \<Rightarrow> jsnum \<times> (string \<times> jsnum) list" where
  "sumForMonth_double w sgMonth categories =
     (if categories = [] then (Finite 0, [])
      else sumForMonth_rows_double (grouped_sums_double ts_sg_month sgMonth categories (expenses w)))"

definition getDailySummaryData_double :: "world \<Rightarrow> sg_now \<Rightarrow> string option
    \<Rightarrow> error + jsnum DailySummaryData" where
  "getDailySummaryData_double w now dateStr =
     (case (case dateStr of
              None \<Rightarrow> Inr (tsSgDate now)
            | Some s \<Rightarrow>
                if s = [] then Inr (tsSgDate now)
                else (case normalizeSgDateString s of
                        None \<Rightarrow> Inl InvalidDate
                      | Some normalized \<Rightarrow> Inr normalized)) of
        Inl e \<Rightarrow> Inl e
      | Inr sgDate \<Rightarrow>
          (let budget = Finite (dailyBudgetForSgDateString sgDate);
               r = sumForDate_double w sgDate DAILY_CATEGORIES;
               spent = fst r;
               remaining = js_sub budget spent
           in Inr \<lparr>date = sgDate, timezone = SG_TIMEZONE, budget_daily = budget,
                   spent_daily = spent, remaining_daily = remaining, by_category = snd r\<rparr>))"

text \<open>
  An amount is a multiple of \<open>2^-k\<close>: such amounts add without rounding as long as the sums
  stay below \<open>2^53\<close> units.
\<close>

definition binary_places :: "nat \<Rightarrow> rat \<Rightarrow> bool" where
  "binary_places k q = (of_int \<lfloor>q * 2 ^ k\<rfloor> = q * 2 ^ k)"

definition adds_exactly :: "nat \<Rightarrow> rat list \<Rightarrow> bool" where
  "adds_exactly k xs =
     (k \<le> 1074 \<and> list_all (binary_places k) xs \<and> sum_list (map abs xs) * 2 ^ k < 2 ^ 53)"

section \<open>The Telegram update handler\<close>

record env =
  ALLOWED_USER_IDS :: string

definition parseAllowedUserIds :: "env \<Rightarrow> jsnum list" where
  "parseAllowedUserIds e =
     filter Number_isFinite
       (map js_Number
          (filter (\<lambda>s. s \<noteq> []) (map js_trim (split_on (CHR '','') (ALLOWED_USER_IDS e)))))"

record tg_message =
  from_id :: "int option"
  chat_id :: "int option"
  message_text :: "string option"

record tg_update =
  message :: "tg_message option"
  edited_message :: "tg_message option"

definition keyboard_step :: "string \<Rightarrow> string list list \<times> string list \<Rightarrow> string list list \<times> string list" where
  "keyboard_step name acc =
     (let row = snd acc @ [name]
      in if length row = 3 then (fst acc @ [row], []) else (fst acc, row))"

definition buildCategoryKeyboard :: "string list list" where
  "buildCategoryKeyboard =
     (case fold keyboard_step (Object_keys CATEGORIES) ([], []) of
        (rows, row) \<Rightarrow> if row \<noteq> [] then rows @ [row] else rows)"

definition handleStart :: "int \<Rightarrow> world \<Rightarrow> world" where
  "handleStart chatId w = sendMessage chatId Welcome (Some buildCategoryKeyboard) w"

definition handleAdd :: "int \<Rightarrow> int \<Rightarrow> world \<Rightarrow> world" where
  "handleAdd chatId userId w =
     sendMessage chatId ChooseCategory (Some buildCategoryKeyboard)
       (setUserState userId ''choose_category'' None w)"

text \<open>
  The two report commands ask for the current day and month. Were the summary to throw,
  the unit of work would end there, with nothing sent.
\<close>

definition handleToday :: "sg_now \<Rightarrow> int \<Rightarrow> world \<Rightarrow> world" where
  "handleToday now chatId w =
     (case getDailySummaryData w now None of
        Inl e \<Rightarrow> w
      | Inr d \<Rightarrow> sendMessage chatId (TodayReport d) None w)"

definition handleMonth :: "sg_now \<Rightarrow> int \<Rightarrow> world \<Rightarrow> world" where
  "handleMonth now chatId w =
     (case getMonthlySummaryData w now None None of
        Inl e \<Rightarrow> w
      | Inr summary \<Rightarrow> sendMessage chatId (MonthReport summary) None w)"

text \<open>
  The command branch of the handler, entered after the sender's state has been cleared,
  and the part of the handler after the commands, where the step stored for the sender
  decides.
\<close>

definition dispatch_command :: "sg_now \<Rightarrow> string \<Rightarrow> int \<Rightarrow> int \<Rightarrow> world \<Rightarrow> world" where
  "dispatch_command now cmd chatId userId w =
     (if cmd = ''/start'' then handleStart chatId w
      else if cmd = ''/add'' then handleAdd chatId userId w
      else if cmd = ''/today'' then handleToday now chatId w
      else if cmd = ''/month'' then handleMonth now chatId w
      else sendMessage chatId UnknownCommand None w)"

definition conversation :: "sg_now \<Rightarrow> string \<Rightarrow> int \<Rightarrow> int \<Rightarrow> world \<Rightarrow> world" where
  "conversation now txt chatId userId w =
     (let state = getUserState w userId in
      if map_option fst state = Some ''choose_category'' then
        (if js_in txt CATEGORIES
         then sendMessage chatId (EnterAmount txt) None
                (setUserState userId ''await_amount'' (Some txt) w)
         else sendMessage chatId TapCategory (Some buildCategoryKeyboard) w)
      else
        (case state of
           Some (stp, Some cat) \<Rightarrow>
             if stp = ''await_amount'' \<and> cat \<noteq> [] then
               (case js_Number txt of
                  Finite amt \<Rightarrow>
                    sendMessage chatId (Recorded amt cat) None
                      (clearUserState userId (insertExpense now userId cat amt w))
                | _ \<Rightarrow> sendMessage chatId EnterValidNumber None w)
             else sendMessage chatId UsageHint None w
         | _ \<Rightarrow> sendMessage chatId UsageHint None w))"

text \<open>\<open>update.message ?? update.edited_message\<close>\<close>

definition incoming :: "tg_update \<Rightarrow> tg_message option" where
  "incoming update = (case message update of Some m \<Rightarrow> Some m | None \<Rightarrow> edited_message update)"

text \<open>
  \<open>handleTelegramUpdate\<close>. A user id or chat id that is missing or 0 is falsy and ends
  the handler, as does a sender outside the allow-list.
\<close>

definition handleTelegramUpdate :: "env \<Rightarrow> sg_now \<Rightarrow> tg_update \<Rightarrow> world \<Rightarrow> world" where
  "handleTelegramUpdate e now update w =
     (case incoming update of
        None \<Rightarrow> w
      | Some m \<Rightarrow>
          (case (from_id m, chat_id m) of
             (Some userId, Some chatId) \<Rightarrow>
               if userId = 0 \<or> chatId = 0 then w
               else if num userId \<notin> set (parseAllowedUserIds e) then w
               else
                 (let txt = js_trim (case message_text m of None \<Rightarrow> [] | Some t \<Rightarrow> t) in
                  if startsWith txt ''/''
                  then dispatch_command now (first_token txt) chatId userId (clearUserState userId w)
                  else conversation now txt chatId userId w)
           | _ \<Rightarrow> w))"

section \<open>Runs of the handler and the invariant of the state table\<close>

text \<open>A history of the bot: the updates handled one after the other, each with its clock.\<close>

fun run :: "(env \<times> sg_now \<times> tg_update) list \<Rightarrow> world \<Rightarrow> world" where
  "run [] w = w"
| "run (ev # evs) w = run evs (handleTelegramUpdate (fst ev) (fst (snd ev)) (snd (snd ev)) w)"

text \<open>A row of \<open>user_state\<close> holds a category exactly when its step is \<open>await_amount\<close>.\<close>

definition row_ok :: "int \<times> string \<times> string option \<Rightarrow> bool" where
  "row_ok row = ((snd (snd row) \<noteq> None) = (fst (snd row) = ''await_amount''))"

definition state_invariant :: "world \<Rightarrow> bool" where
  "state_invariant w = list_all row_ok (user_state w)"

section \<open>The reference calendar\<close>

text \<open>
  The proleptic Gregorian calendar, by counting: the length of each month, the days from
  1 January 1970 to a date, and the day of the week from the fact that 1 January 1970 was
  a Thursday (0 is Sunday, 6 is Saturday). The claims about dates are measured against
  these definitions.
\<close>

definition days_in_month :: "int \<Rightarrow> int \<Rightarrow> int" where
  "days_in_month y m =
     (if m = 2 then (if DaysInYear y = 366 then 29 else 28)
      else if m = 4 \<or> m = 6 \<or> m = 9 \<or> m = 11 then 30
      else 31)"

definition days_before_year :: "int \<Rightarrow> int" where
  "days_before_year y =
     (if 1970 \<le> y then sum_list (map DaysInYear [1970..y - 1])
      else - sum_list (map DaysInYear [y..1969]))"

definition days_before_month :: "int \<Rightarrow> int \<Rightarrow> int" where
  "days_before_month y m = sum_list (map (days_in_month y) [1..m - 1])"

definition day_number :: "int \<Rightarrow> int \<Rightarrow> int \<Rightarrow> int" where
  "day_number y m d = days_before_year y + days_before_month y m + d - 1"

definition day_of_week :: "int \<Rightarrow> int \<Rightarrow> int \<Rightarrow> int" where
  "day_of_week y m d = (day_number y m d + 4) mod 7"

definition is_weekend :: "int \<Rightarrow> int \<Rightarrow> int \<Rightarrow> bool" where
  "is_weekend y m d = (day_of_week y m d = 0 \<or> day_of_week y m d = 6)"

text \<open>The year, month and day that a string of the form \<open>YYYY-MM-DD\<close> writes.\<close>

definition date_fields :: "string \<Rightarrow> int \<times> int \<times> int" where
  "date_fields s =
     (digits_value 10 (take 4 s), digits_value 10 (take 2 (drop 5 s)),
      digits_value 10 (take 2 (drop 8 s)))"

definition valid_date :: "int \<Rightarrow> int \<Rightarrow> int \<Rightarrow> bool" where
  "valid_date y m d = (1 \<le> m \<and> m \<le> 12 \<and> 1 \<le> d \<and> d \<le> days_in_month y m)"

definition valid_calendar_date :: "string \<Rightarrow> bool" where
  "valid_calendar_date s =
     (matches_date_pattern s \<and>
      (case date_fields s of (y, m, d) \<Rightarrow> valid_date y m d))"

section \<open>Example data\<close>

definition example_now :: sg_now where
  "example_now =
     \<lparr>tsUtc = ''2025-03-14T16:30:00.000Z'', tsSgDate = ''2025-03-15'', tsSgMonth = ''2025-03'',
      now_year = 2025, now_month = 3\<rparr>"

definition example_env :: env where
  "example_env = \<lparr>ALLOWED_USER_IDS = ''1001, 1002''\<rparr>"

definition empty_world :: world where
  "empty_world = \<lparr>expenses = [], user_state = [], outbox = []\<rparr>"

definition spend :: "string \<Rightarrow> string \<Rightarrow> rat \<Rightarrow> expense" where
  "spend day cat amt =
     \<lparr>ts_utc = day @ ''T04:00:00.000Z'', ts_sg_date = day, ts_sg_month = take 7 day,
      user_id = 1001, category = cat, amount = amt\<rparr>"

definition march_world :: world where
  "march_world =
     \<lparr>expenses = [spend ''2025-03-10'' ''Meals'' 200, spend ''2025-03-11'' ''Groceries'' 120,
                  spend ''2025-03-12'' ''Other'' 75, spend ''2025-02-27'' ''Drinks'' 9],
      user_state = [], outbox = []\<rparr>"

definition text_update :: "int \<Rightarrow> string \<Rightarrow> tg_update" where
  "text_update uid txt =
     \<lparr>message = Some \<lparr>from_id = Some uid, chat_id = Some uid, message_text = Some txt\<rparr>,
      edited_message = None\<rparr>"

definition choosing_world :: world where
  "choosing_world =
     \<lparr>expenses = [], user_state = [(1001, ''choose_category'', None)], outbox = []\<rparr>"

definition awaiting_world :: world where
  "awaiting_world =
     \<lparr>expenses = [], user_state = [(1001, ''await_amount'', Some ''Meals'')], outbox = []\<rparr>"

text \<open>An update whose message has no text, as for a sticker or a photo.\<close>

definition sticker_update :: "int \<Rightarrow> tg_update" where
  "sticker_update uid =
     \<lparr>message = Some \<lparr>from_id = Some uid, chat_id = Some uid, message_text = None\<rparr>,
      edited_message = None\<rparr>"

text \<open>The amount that is stored for a text that \<open>Number\<close> reads as finite.\<close>

definition amount_of_text :: "string \<Rightarrow> rat" where
  "amount_of_text txt = (case js_Number txt of Finite q \<Rightarrow> q | _ \<Rightarrow> 0)"

text \<open>A day on which 0.1 was spent on drinks and 0.2 on meals.\<close>

definition tenths_world :: world where
  "tenths_world =
     \<lparr>expenses = [spend ''2025-03-15'' ''Drinks'' (amount_of_text ''0.1''),
                  spend ''2025-03-15'' ''Meals'' (amount_of_text ''0.2'')],
      user_state = [], outbox = []\<rparr>"

text \<open>A day on which \<open>10^17\<close> was spent on meals.\<close>

definition large_world :: world where
  "large_world =
     \<lparr>expenses = [spend ''2025-03-15'' ''Meals'' (amount_of_text ''1e17'')],
      user_state = [], outbox = []\<rparr>"

text \<open>A day on which 3.5 was spent on drinks and 12.25 on meals.\<close>

definition quarters_world :: world where
  "quarters_world =
     \<lparr>expenses = [spend ''2025-03-15'' ''Drinks'' (amount_of_text ''3.5''),
                  spend ''2025-03-15'' ''Meals'' (amount_of_text ''12.25'')],
      user_state = [], outbox = []\<rparr>"

text \<open>A month with expenses in three of the monthly categories.\<close>

definition bills_world :: world where
  "bills_world =
     \<lparr>expenses = [spend ''2025-03-03'' ''Utilities'' (amount_of_text ''150.5''),
                  spend ''2025-03-08'' ''Groceries'' (amount_of_text ''120.25''),
                  spend ''2025-03-09'' ''Transport'' 18,
                  spend ''2025-03-20'' ''Groceries'' (amount_of_text ''30.5'')],
      user_state = [], outbox = []\<rparr>"

text \<open>Expenses in categories named 2, 9 and 10, and the grouped rows they give.\<close>

definition index_world :: world where
  "index_world =
     \<lparr>expenses = [spend ''2025-03-15'' ''2'' 1, spend ''2025-03-15'' ''9'' 1,
                  spend ''2025-03-15'' ''10'' (amount_of_text ''1e16'')],
      user_state = [], outbox = []\<rparr>"

definition index_rows :: "(string \<times> jsnum) list" where
  "index_rows = [(''10'', js_Number ''1e16''), (''2'', js_Number ''1''), (''9'', js_Number ''1'')]"

section \<open>Doubles\<close>

lemma bit_length_bounds: "0 < a \<Longrightarrow> 2 ^ bit_length a \<le> 2 * a \<and> a < 2 ^ bit_length a"
proof (induction a rule: bit_length.induct)
  case (1 a)
  show ?case
  proof (cases "a div 2 = 0")
    case True
    then have "a = 1"
      using "1.prems" by presburger
    then show ?thesis
      by (simp add: bit_length.simps [of 1] bit_length.simps [of 0])
  next
    case False
    then have p: "0 < a div 2"
      using "1.prems" by presburger
    have ih: "2 ^ bit_length (a div 2) \<le> 2 * (a div 2) \<and> a div 2 < 2 ^ bit_length (a div 2)"
      using "1.IH" "1.prems" p by simp
    have s: "bit_length a = Suc (bit_length (a div 2))"
      using "1.prems" by (subst bit_length.simps) simp
    have "2 * (a div 2) \<le> a" "a \<le> 2 * (a div 2) + 1"
      by presburger+
    then show ?thesis
      using ih unfolding s by simp
  qed
qed

text \<open>The exponent that \<open>binary_exponent\<close> computes is the one of its description.\<close>

lemma binary_exponent_bounds:
  assumes "0 < a" and "0 < b"
  shows "(2::rat) powi binary_exponent a b \<le> of_int a / of_int b
     \<and> of_int a / of_int b < (2::rat) powi (binary_exponent a b + 1)"
proof -
  define la where "la = bit_length a"
  define lb where "lb = bit_length b"
  define d where "d = int la - int lb"
  define q :: rat where "q = of_int a / of_int b"
  have bp: "0 < (of_int b :: rat)"
    using assms(2) by simp
  have a1: "(2::rat) ^ la \<le> 2 * of_int a" and a2: "(of_int a :: rat) < 2 ^ la"
    using bit_length_bounds [OF assms(1)] unfolding la_def
    by (metis of_int_le_iff of_int_mult of_int_numeral of_int_power,
        metis of_int_less_iff of_int_numeral of_int_power)
  have b1: "(2::rat) ^ lb \<le> 2 * of_int b" and b2: "(of_int b :: rat) < 2 ^ lb"
    using bit_length_bounds [OF assms(2)] unfolding lb_def
    by (metis of_int_le_iff of_int_mult of_int_numeral of_int_power,
        metis of_int_less_iff of_int_numeral of_int_power)
  have pd: "(2::rat) powi d = 2 ^ la / 2 ^ lb"
    unfolding d_def by (simp add: power_int_diff)
  have lo: "(2::rat) powi (d - 1) < q"
  proof -
    have "(2::rat) powi (d - 1) = 2 ^ la / (2 * 2 ^ lb)"
      by (simp add: power_int_diff pd)
    also have "\<dots> \<le> 2 * of_int a / (2 * 2 ^ lb)"
      using a1 by (intro divide_right_mono) simp_all
    also have "\<dots> = of_int a / 2 ^ lb"
      by simp
    also have "\<dots> < of_int a / of_int b"
      using b2 bp assms(1) by (simp add: divide_strict_left_mono)
    finally show ?thesis
      by (simp add: q_def)
  qed
  have hi: "q < (2::rat) powi (d + 1)"
  proof -
    have "q < 2 ^ la / of_int b"
      unfolding q_def using a2 bp by (simp add: divide_strict_right_mono)
    also have "\<dots> = 2 * 2 ^ la / (2 * of_int b)"
      by simp
    also have "\<dots> \<le> 2 * 2 ^ la / 2 ^ lb"
      using b1 bp by (intro divide_left_mono) simp_all
    also have "\<dots> = (2::rat) powi (d + 1)"
      by (simp add: power_int_add pd)
    finally show ?thesis .
  qed
  have test: "(if 0 \<le> d then 2 ^ nat d * b \<le> a else b \<le> a * 2 ^ nat (- d)) \<longleftrightarrow> (2::rat) powi d \<le> q"
  proof (cases "0 \<le> d")
    case True
    then have "(2::rat) powi d = of_int (2 ^ nat d)"
      by (simp add: power_int_def)
    then have "(2::rat) powi d \<le> q \<longleftrightarrow> (of_int (2 ^ nat d * b) :: rat) \<le> of_int a"
      unfolding q_def using bp by (simp add: pos_le_divide_eq)
    then show ?thesis
      using True by (simp only: of_int_le_iff if_True)
  next
    case False
    have aux: "(1 / P \<le> A / B) = (B \<le> A * P)" if "0 < P" and "0 < B" for A B P :: rat
      using that by (simp add: field_simps)
    have "(2::rat) powi d = 1 / 2 ^ nat (- d)"
      using False by (simp add: power_int_def field_simps)
    then have "(2::rat) powi d \<le> q \<longleftrightarrow> (of_int b :: rat) \<le> of_int a * 2 ^ nat (- d)"
      unfolding q_def using aux [OF _ bp, of "2 ^ nat (- d)" "of_int a"] by simp
    also have "\<dots> \<longleftrightarrow> (of_int b :: rat) \<le> of_int (a * 2 ^ nat (- d))"
      by simp
    finally show ?thesis
      using False by (simp only: of_int_le_iff if_False)
  qed
  have e: "binary_exponent a b = (if (2::rat) powi d \<le> q then d else d - 1)"
    unfolding binary_exponent_def la_def [symmetric] lb_def [symmetric] d_def [symmetric] Let_def
    using test by simp
  show ?thesis
    using lo hi unfolding e q_def [symmetric] by auto
qed

lemma round_half_even_exact: "0 < b \<Longrightarrow> round_half_even (n * b) b = n"
  by (simp add: round_half_even_def)

lemma scale2_value: "scale2 n x = of_int n * (2::rat) powi x"
  by (simp add: scale2_def power_int_def Fract_of_int_quotient field_simps)

text \<open>A multiple of \<open>2^-k\<close> of less than \<open>2^53\<close> units is a double: rounding leaves it as it is.\<close>

lemma round_to_double_exact:
  assumes k: "k \<le> 1074" and m: "\<bar>m\<bar> < 2 ^ 53"
  shows "round_to_double (of_int m / 2 ^ k) = Finite (of_int m / 2 ^ k)"
proof -
  define q :: rat where "q = of_int m / 2 ^ k"
  obtain a b where ab: "quotient_of q = (a, b)"
    by (cases "quotient_of q")
  have bp: "0 < b" and qa: "q = of_int a / of_int b"
    using ab by (rule quotient_of_denom_pos, rule quotient_of_div)
  have cross: "a * 2 ^ k = m * b"
  proof -
    have "(of_int a :: rat) * 2 ^ k = of_int m * of_int b"
      using qa bp unfolding q_def by (simp add: field_simps)
    then have "(of_int (a * 2 ^ k) :: rat) = of_int (m * b)"
      by simp
    then show ?thesis
      by (simp only: of_int_eq_iff)
  qed
  show ?thesis
  proof (cases "a = 0")
    case True
    then have "q = 0"
      using qa by simp
    then show ?thesis
      unfolding q_def [symmetric] by (simp add: round_to_double_def ab True)
  next
    case False
    define E where "E = binary_exponent \<bar>a\<bar> b"
    define x where "x = max E (- 1022) - 52"
    have "(2::rat) powi E \<le> of_int \<bar>a\<bar> / of_int b"
      using binary_exponent_bounds [of "\<bar>a\<bar>" b] False bp unfolding E_def by simp
    also have "\<dots> = \<bar>q\<bar>"
      using bp by (simp add: qa)
    also have "\<dots> = of_int \<bar>m\<bar> / 2 ^ k"
      by (simp add: q_def)
    also have "\<dots> < 2 ^ 53 / 2 ^ k"
    proof -
      have "(of_int \<bar>m\<bar> :: rat) < of_int (2 ^ 53)"
        using m by (simp only: of_int_less_iff)
      then show ?thesis
        by (simp add: divide_strict_right_mono)
    qed
    also have "\<dots> = (2::rat) powi (53 - int k)"
      by (simp add: power_int_diff)
    finally have lt: "(2::rat) powi E < 2 powi (53 - int k)" .
    have "E < 53 - int k"
    proof (rule ccontr)
      assume "\<not> E < 53 - int k"
      then have "(2::rat) powi (53 - int k) \<le> 2 powi E"
        by (intro power_int_increasing) simp_all
      then show False
        using lt by simp
    qed
    then have xk: "x \<le> - int k"
      using k unfolding x_def by simp
    define j where "j = nat (- x)"
    have jk: "k \<le> j" and xj: "x = - int j"
      using xk unfolding j_def by simp_all
    define N where "N = m * 2 ^ (j - k)"
    have aj: "a * 2 ^ j = N * b"
    proof -
      have "a * 2 ^ j = a * 2 ^ k * 2 ^ (j - k)"
        using jk by (simp add: power_add [symmetric])
      then show ?thesis
        unfolding cross N_def by simp
    qed
    have n: "(if 0 \<le> x then round_half_even a (b * 2 ^ nat x)
              else round_half_even (a * 2 ^ nat (- x)) b) = N"
    proof (cases "0 \<le> x")
      case True
      then have "j = 0"
        using xj by simp
      then show ?thesis
        using True aj bp xj by (simp add: round_half_even_exact)
    next
      case False
      then show ?thesis
        using aj bp by (simp add: j_def [symmetric] round_half_even_exact)
    qed
    have v: "scale2 N x = q"
    proof -
      have "scale2 N x = of_int m * 2 ^ (j - k) / 2 ^ j"
        unfolding scale2_value xj N_def by (simp add: power_int_minus field_simps)
      also have "\<dots> = of_int m * 2 ^ (j - k) / (2 ^ k * 2 ^ (j - k))"
        using jk by (simp add: power_add [symmetric])
      also have "\<dots> = q"
        unfolding q_def by simp
      finally show ?thesis .
    qed
    have no: "\<not> (0 \<le> x \<and> 2 ^ 1024 \<le> \<bar>N\<bar> * 2 ^ nat x)"
    proof
      assume h: "0 \<le> x \<and> 2 ^ 1024 \<le> \<bar>N\<bar> * 2 ^ nat x"
      then have "j = 0" "k = 0"
        using xj jk by simp_all
      then have "\<bar>N\<bar> * 2 ^ nat x < 2 ^ 53"
        using m xj unfolding N_def by simp
      also have "\<dots> < (2::int) ^ 1024"
        by simp
      finally show False
        using h by simp
    qed
    have "round_to_double q
        = (if 0 \<le> x \<and> 2 ^ 1024 \<le> \<bar>N\<bar> * 2 ^ nat x
           then (if 0 < N then PosInfinity else NegInfinity) else Finite (scale2 N x))"
      unfolding round_to_double_def ab prod.case Let_def E_def [symmetric] x_def [symmetric] n
      using False by (simp only: if_False)
    then show ?thesis
      unfolding q_def [symmetric] using no v by (simp only: if_False)
  qed
qed

lemma round_to_double_int: "\<bar>i\<bar> < 2 ^ 53 \<Longrightarrow> round_to_double (of_int i) = Finite (of_int i)"
  using round_to_double_exact [of 0 i] by simp

lemma round_half_even_nearest:
  assumes "0 < b"
  shows "2 * \<bar>round_half_even a b * b - a\<bar> \<le> b"
proof -
  define f where "f = a div b"
  define r where "r = a mod b"
  have a: "a = f * b + r"
    by (simp add: f_def r_def)
  have r: "0 \<le> r" "r < b"
    using assms by (simp_all add: r_def)
  have 1: "f * b - a = - r" and 2: "(f + 1) * b - a = b - r"
    by (simp_all add: a algebra_simps)
  show ?thesis
    unfolding round_half_even_def Let_def f_def [symmetric] r_def [symmetric]
    using r by (auto simp: 1 2)
qed

lemma round_half_even_close:
  assumes "0 < b"
  shows "\<bar>of_int (round_half_even a b) - of_int a / of_int b\<bar> \<le> (1 / 2 :: rat)"
proof -
  define n where "n = round_half_even a b"
  have bp: "0 < (of_int b :: rat)"
    using assms by simp
  have "of_int (2 * \<bar>n * b - a\<bar>) \<le> (of_int b :: rat)"
    using round_half_even_nearest [OF assms, of a] unfolding n_def by (simp only: of_int_le_iff)
  then have "2 * \<bar>of_int n * of_int b - of_int a\<bar> \<le> (of_int b :: rat)"
    by simp
  moreover have "of_int n - of_int a / of_int b = (of_int n * of_int b - of_int a) / (of_int b :: rat)"
    using bp by (simp add: field_simps)
  then have "\<bar>of_int n - of_int a / of_int b\<bar> = \<bar>of_int n * of_int b - of_int a\<bar> / (of_int b :: rat)"
    using bp by (simp only: abs_divide abs_of_pos)
  ultimately show ?thesis
    using bp unfolding n_def [symmetric] by (simp add: field_simps)
qed

lemma powi_nat: "0 \<le> x \<Longrightarrow> (2::rat) powi x = of_int (2 ^ nat x)"
  by (simp add: power_int_def)

lemma powi_neg: "x < 0 \<Longrightarrow> (2::rat) powi x = 1 / of_int (2 ^ nat (- x))"
  by (simp add: power_int_def field_simps)

lemma int_le_of_half:
  assumes "(of_int m :: rat) < of_int k + 1 / 2"
  shows "m \<le> k"
proof (rule ccontr)
  assume "\<not> m \<le> k"
  then have "k + 1 \<le> m"
    by simp
  then have "(of_int (k + 1) :: rat) \<le> of_int m"
    by (simp only: of_int_le_iff)
  then show False
    using assms by simp
qed

lemma int_ge_of_half:
  assumes "(of_int k :: rat) - 1 / 2 \<le> of_int m"
  shows "k \<le> m"
proof (rule ccontr)
  assume "\<not> k \<le> m"
  then have "m + 1 \<le> k"
    by simp
  then have "(of_int (m + 1) :: rat) \<le> of_int k"
    by (simp only: of_int_le_iff)
  then show False
    using assms by simp
qed

text \<open>
  What \<open>round_to_double\<close> returns is a double next to its argument: a multiple \<open>n * 2^x\<close> with
  \<open>|n| \<le> 2^53\<close> of the unit that belongs to the argument, below \<open>2^1024\<close> and at most half
  a unit away.
\<close>

lemma round_to_double_nearest:
  assumes "round_to_double q = Finite r"
  shows "\<exists>n x. r = of_int n * 2 powi x \<and> \<bar>n\<bar> \<le> 2 ^ 53 \<and> - 1074 \<le> x \<and> x \<le> 971
     \<and> \<bar>r\<bar> < 2 ^ 1024 \<and> 2 * \<bar>q - r\<bar> \<le> 2 powi x
     \<and> \<bar>q\<bar> < 2 powi (x + 53) \<and> (2 powi (x + 52) \<le> \<bar>q\<bar> \<or> x = - 1074)"
proof -
  obtain a b where ab: "quotient_of q = (a, b)"
    by (cases "quotient_of q")
  have bp: "0 < b" and qa: "q = of_int a / of_int b"
    using ab by (rule quotient_of_denom_pos, rule quotient_of_div)
  show ?thesis
  proof (cases "a = 0")
    case True
    then have "q = 0" "r = 0"
      using qa assms by (simp_all add: round_to_double_def ab)
    then show ?thesis
      by (intro exI [of _ 0] exI [of _ "- 1074"]) simp
  next
    case False
    define E where "E = binary_exponent \<bar>a\<bar> b"
    define x where "x = max E (- 1022) - 52"
    define u :: rat where "u = 2 powi x"
    define A where "A = (if 0 \<le> x then a else a * 2 ^ nat (- x))"
    define B where "B = (if 0 \<le> x then b * 2 ^ nat x else b)"
    define n where "n = round_half_even A B"
    have up: "0 < u"
      by (simp add: u_def)
    have Bp: "0 < B"
      using bp by (simp add: B_def)
    have aq: "of_int \<bar>a\<bar> / of_int b = \<bar>q\<bar>"
      using bp by (simp add: qa)
    have lo: "2 powi E \<le> \<bar>q\<bar>" and hi: "\<bar>q\<bar> < 2 powi (E + 1)"
      using binary_exponent_bounds [of "\<bar>a\<bar>" b] False bp unfolding E_def aq by simp_all
    have ratio: "of_int A / of_int B = q / u"
    proof (cases "0 \<le> x")
      case True
      then show ?thesis
        by (simp add: A_def B_def u_def powi_nat qa)
    next
      case False
      then show ?thesis
        by (simp add: A_def B_def u_def powi_neg qa)
    qed
    have n_eq: "(if 0 \<le> x then round_half_even a (b * 2 ^ nat x)
                 else round_half_even (a * 2 ^ nat (- x)) b) = n"
      by (simp add: n_def A_def B_def)
    have rd: "round_to_double q
        = (if 0 \<le> x \<and> 2 ^ 1024 \<le> \<bar>n\<bar> * 2 ^ nat x
           then (if 0 < n then PosInfinity else NegInfinity) else Finite (scale2 n x))"
      unfolding round_to_double_def ab prod.case Let_def E_def [symmetric] x_def [symmetric] n_eq
      using False by (simp only: if_False)
    have no: "\<not> (0 \<le> x \<and> 2 ^ 1024 \<le> \<bar>n\<bar> * 2 ^ nat x)"
      using assms unfolding rd by (auto split: if_splits)
    have "Finite (scale2 n x) = Finite r"
      using assms no unfolding rd by (simp only: if_False)
    then have r: "r = of_int n * u"
      by (simp add: scale2_value u_def)
    have close: "\<bar>of_int n - q / u\<bar> \<le> 1 / 2"
      using round_half_even_close [OF Bp, of A] unfolding n_def ratio .
    have "2 * \<bar>q - r\<bar> = 2 * (\<bar>of_int n - q / u\<bar> * u)"
    proof -
      have "q - r = - ((of_int n - q / u) * u)"
        using up by (simp add: r field_simps)
      then show ?thesis
        using up by (simp add: abs_mult)
    qed
    also have "\<dots> \<le> 2 * (1 / 2 * u)"
      using close up by (intro mult_left_mono mult_right_mono) simp_all
    finally have near: "2 * \<bar>q - r\<bar> \<le> 2 powi x"
      by (simp add: u_def)
    have x_lo: "- 1074 \<le> x"
      by (simp add: x_def)
    have "(2::rat) powi (E + 1) \<le> 2 powi (x + 53)"
      by (intro power_int_increasing) (simp_all add: x_def)
    with hi have q_hi: "\<bar>q\<bar> < 2 powi (x + 53)"
      by simp
    have q_lo: "2 powi (x + 52) \<le> \<bar>q\<bar> \<or> x = - 1074"
    proof (cases "- 1022 \<le> E")
      case True
      then have "x + 52 = E"
        by (simp add: x_def)
      then show ?thesis
        using lo by simp
    next
      case False
      then show ?thesis
        by (simp add: x_def)
    qed
    have ratio_hi: "\<bar>q / u\<bar> < 2 ^ 53"
    proof -
      have "\<bar>q / u\<bar> = \<bar>q\<bar> / u"
        using up by (simp add: abs_divide)
      also have "\<dots> < 2 powi (x + 53) / u"
        using q_hi up by (simp add: divide_strict_right_mono)
      also have "\<dots> = 2 ^ 53"
        by (simp add: u_def power_int_add)
      finally show ?thesis .
    qed
    have n_le: "\<bar>n\<bar> \<le> 2 ^ 53"
    proof -
      have "\<bar>of_int n :: rat\<bar> \<le> \<bar>of_int n - q / u\<bar> + \<bar>q / u\<bar>"
        using abs_triangle_ineq [of "of_int n - q / u" "q / u"] by simp
      also have "\<dots> < 1 / 2 + 2 ^ 53"
        using close ratio_hi by simp
      finally have "(of_int \<bar>n\<bar> :: rat) < of_int (2 ^ 53) + 1 / 2"
        by simp
      then show ?thesis
        by (rule int_le_of_half)
    qed
    have x_hi: "x \<le> 971"
    proof (rule ccontr)
      assume "\<not> x \<le> 971"
      then have x972: "972 \<le> x"
        by simp
      then have xE: "x + 52 = E"
        by (simp add: x_def max_def split: if_splits)
      have "(2::rat) ^ 52 = 2 powi (x + 52) / u"
        by (simp add: u_def power_int_add)
      also have "\<dots> \<le> \<bar>q\<bar> / u"
        using lo up unfolding xE by (simp add: divide_right_mono)
      also have "\<dots> = \<bar>q / u\<bar>"
        using up by (simp add: abs_divide)
      also have "\<dots> \<le> \<bar>q / u - of_int n\<bar> + \<bar>of_int n\<bar>"
        using abs_triangle_ineq [of "q / u - of_int n" "of_int n"] by simp
      also have "\<dots> \<le> 1 / 2 + \<bar>of_int n\<bar>"
        using close by (simp add: abs_minus_commute)
      finally have "(of_int (2 ^ 52) :: rat) - 1 / 2 \<le> of_int \<bar>n\<bar>"
        by simp
      then have n52: "2 ^ 52 \<le> \<bar>n\<bar>"
        by (rule int_ge_of_half)
      have "(2::int) ^ 1024 = 2 ^ 52 * 2 ^ 972"
        by simp
      also have "\<dots> \<le> \<bar>n\<bar> * 2 ^ nat x"
        using n52 x972 by (intro mult_mono power_increasing) simp_all
      finally show False
        using no x972 by simp
    qed
    have r_lt: "\<bar>r\<bar> < 2 ^ 1024"
    proof (cases "0 \<le> x")
      case True
      then have "\<bar>n\<bar> * 2 ^ nat x < 2 ^ 1024"
        using no by simp
      then have "(of_int (\<bar>n\<bar> * 2 ^ nat x) :: rat) < of_int (2 ^ 1024)"
        by (simp only: of_int_less_iff)
      then show ?thesis
        using True by (simp add: r u_def powi_nat abs_mult)
    next
      case False
      then have "u \<le> 1"
        unfolding u_def using power_int_increasing [of x 0 "2::rat"] by simp
      then have "\<bar>r\<bar> \<le> \<bar>of_int n :: rat\<bar> * 1"
        unfolding r abs_mult using up by (intro mult_left_mono) simp_all
      also have "\<dots> \<le> of_int (2 ^ 53)"
        using n_le by (simp only: mult_1_right of_int_abs [symmetric] of_int_le_iff)
      also have "\<dots> < (2::rat) ^ 1024"
        by simp
      finally show ?thesis .
    qed
    show ?thesis
      using r [unfolded u_def] n_le x_lo x_hi r_lt near q_hi q_lo by blast
  qed
qed

text \<open>Rounding where it happens: the doubles nearest to 0.1 and to \<open>2^53 + 1\<close>, and the sum
  \<open>0.1 + 0.2\<close>.\<close>

lemma rounding_examples:
  "js_Number ''0.1'' = Finite (Fract 3602879701896397 36028797018963968)"
  "js_Number ''9007199254740993'' = Finite 9007199254740992"
  "js_add (js_Number ''0.1'') (js_Number ''0.2'') = Finite (Fract 1351079888211149 4503599627370496)"
  "js_add (js_Number ''0.1'') (js_Number ''0.2'') \<noteq> js_Number ''0.3''"
  by code_simp+

subsection \<open>Sums without rounding\<close>

lemma binary_places_iff: "binary_places k q \<longleftrightarrow> q * 2 ^ k \<in> \<int>"
  unfolding binary_places_def by (metis Ints_of_int of_int_floor)

lemma binary_places_add: "binary_places k a \<Longrightarrow> binary_places k b \<Longrightarrow> binary_places k (a + b)"
  by (simp add: binary_places_iff distrib_right)

lemma binary_places_minus: "binary_places k a \<Longrightarrow> binary_places k (- a)"
  by (simp add: binary_places_iff)

lemma binary_places_int: "binary_places k (of_int i)"
  by (simp add: binary_places_iff)

lemma binary_places_zero: "binary_places k 0"
  by (simp add: binary_places_def)

lemma binary_places_sum_list: "list_all (binary_places k) xs \<Longrightarrow> binary_places k (sum_list xs)"
  by (induction xs) (simp_all add: binary_places_add binary_places_zero)

lemma binary_places_rounds:
  assumes "k \<le> 1074" and "binary_places k q" and "\<bar>q\<bar> * 2 ^ k < 2 ^ 53"
  shows "round_to_double q = Finite q"
proof -
  define m where "m = \<lfloor>q * 2 ^ k\<rfloor>"
  have mq: "of_int m = q * 2 ^ k"
    using assms(2) by (simp add: binary_places_def m_def)
  then have q: "q = of_int m / 2 ^ k"
    by simp
  have "(of_int \<bar>m\<bar> :: rat) = \<bar>q\<bar> * 2 ^ k"
    by (simp add: mq abs_mult)
  then have "(of_int \<bar>m\<bar> :: rat) < of_int (2 ^ 53)"
    using assms(3) by simp
  then have "\<bar>m\<bar> < 2 ^ 53"
    by (simp only: of_int_less_iff)
  then show ?thesis
    unfolding q by (rule round_to_double_exact [OF assms(1)])
qed

lemma js_add_exact:
  assumes "k \<le> 1074" and "binary_places k a" and "binary_places k b"
    and "(\<bar>a\<bar> + \<bar>b\<bar>) * 2 ^ k < 2 ^ 53"
  shows "js_add (Finite a) (Finite b) = Finite (a + b)"
proof -
  have "\<bar>a + b\<bar> * 2 ^ k \<le> (\<bar>a\<bar> + \<bar>b\<bar>) * (2::rat) ^ k"
    by (intro mult_right_mono) simp_all
  then have "\<bar>a + b\<bar> * 2 ^ k < (2::rat) ^ 53"
    using assms(4) by (rule order_le_less_trans)
  then show ?thesis
    using binary_places_rounds [OF assms(1) binary_places_add [OF assms(2,3)]] by simp
qed

lemma foldl_js_add_exact:
  assumes "k \<le> 1074"
  shows "binary_places k t \<Longrightarrow> list_all (binary_places k) xs \<Longrightarrow>
     (\<bar>t\<bar> + sum_list (map abs xs)) * 2 ^ k < 2 ^ 53 \<Longrightarrow>
     foldl js_add (Finite t) (map Finite xs) = Finite (t + sum_list xs)"
proof (induction xs arbitrary: t)
  case Nil
  then show ?case by simp
next
  case (Cons x xs)
  have nn: "0 \<le> sum_list (map abs xs)"
    by (rule sum_list_nonneg) auto
  have "(\<bar>t\<bar> + \<bar>x\<bar>) * 2 ^ k \<le> (\<bar>t\<bar> + sum_list (map abs (x # xs))) * (2::rat) ^ k"
    using nn by (intro mult_right_mono) simp_all
  then have b1: "(\<bar>t\<bar> + \<bar>x\<bar>) * 2 ^ k < (2::rat) ^ 53"
    using Cons.prems(3) by (rule order_le_less_trans)
  have step: "js_add (Finite t) (Finite x) = Finite (t + x)"
    using Cons.prems(1,2) b1 by (intro js_add_exact [OF assms]) simp_all
  have "(\<bar>t + x\<bar> + sum_list (map abs xs)) * 2 ^ k
      \<le> (\<bar>t\<bar> + sum_list (map abs (x # xs))) * (2::rat) ^ k"
    by (intro mult_right_mono) simp_all
  then have b2: "(\<bar>t + x\<bar> + sum_list (map abs xs)) * 2 ^ k < (2::rat) ^ 53"
    using Cons.prems(3) by (rule order_le_less_trans)
  have "foldl js_add (Finite (t + x)) (map Finite xs) = Finite (t + x + sum_list xs)"
    using Cons.prems(1,2) b2 by (intro Cons.IH) (simp_all add: binary_places_add)
  then show ?case
    using step by (simp add: add.assoc)
qed

section \<open>Objects\<close>

lemma set_Object_entries: "set (Object_entries obj) = set obj"
  by (auto simp: Object_entries_def)

lemma set_Object_keys: "set (Object_keys obj) = fst ` set obj"
  by (simp add: Object_keys_def set_Object_entries)

text \<open>An object without index names lists its properties in insertion order.\<close>

lemma Object_entries_plain:
  "\<forall>p \<in> set obj. \<not> is_array_index (fst p) \<Longrightarrow> Object_entries obj = obj"
  by (simp add: Object_entries_def filter_empty_conv filter_id_conv)

lemma sum_list_insort_key:
  "sum_list (map g (insort_key f x xs)) = g x + (sum_list (map g xs) :: rat)"
  by (induction xs) simp_all

lemma sum_list_sort_key: "sum_list (map g (sort_key f xs)) = (sum_list (map g xs) :: rat)"
  by (induction xs) (simp_all add: sum_list_insort_key)

lemma sum_list_partition:
  "sum_list (map g (filter P xs)) + sum_list (map g (filter (\<lambda>x. \<not> P x) xs))
   = (sum_list (map g xs) :: rat)"
  by (induction xs) simp_all

text \<open>Without rounding the order of \<open>Object.values\<close> changes no sum.\<close>

lemma sum_list_Object_values: "sum_list (Object_values obj) = (sum_list (map snd obj) :: rat)"
  by (simp add: Object_values_def Object_entries_def sum_list_sort_key sum_list_partition)

lemma js_update_fresh: "k \<notin> fst ` set obj \<Longrightarrow> js_update k v obj = obj @ [(k, v)]"
  by (induction obj) auto

lemma js_update_map:
  "js_update k (f v) (map (\<lambda>p. (fst p, f (snd p))) obj)
   = map (\<lambda>p. (fst p, f (snd p))) (js_update k v obj)"
  by (induction obj) auto

lemma js_set_map:
  "js_set k (f v) (map (\<lambda>p. (fst p, f (snd p))) obj)
   = map (\<lambda>p. (fst p, f (snd p))) (js_set k v obj)"
  by (simp add: js_set_def js_update_map)

section \<open>Aggregation: the two loops\<close>

lemma fold_date_row:
  "distinct (map fst rows) \<Longrightarrow> ''__proto__'' \<notin> fst ` set rows \<Longrightarrow>
   fst ` set rows \<inter> fst ` set obj = {} \<Longrightarrow>
   fold date_row rows (t, obj) = (t + sum_list (map snd rows), obj @ rows)"
proof (induction rows arbitrary: t obj)
  case Nil
  then show ?case by simp
next
  case (Cons r rows)
  obtain k v where r: "r = (k, v)" by (cases r)
  from Cons.prems have fresh: "k \<notin> fst ` set obj" and np: "k \<noteq> ''__proto__''"
    by (auto simp: r)
  have step: "date_row (k, v) (t, obj) = (t + v, obj @ [(k, v)])"
    using np by (simp add: date_row_def js_set_def js_update_fresh [OF fresh])
  have "fold date_row rows (t + v, obj @ [(k, v)])
      = (t + v + sum_list (map snd rows), (obj @ [(k, v)]) @ rows)"
    using Cons.prems by (intro Cons.IH) (auto simp: r)
  then show ?case by (simp add: step r add.assoc)
qed

text \<open>The daily loop adds every row to its total, whatever happens to the object.\<close>

lemma fold_date_row_total: "fst (fold date_row rows (t, obj)) = t + sum_list (map snd rows)"
  by (induction rows arbitrary: t obj) (auto simp: date_row_def split: prod.splits)

lemma fold_month_row:
  "distinct (map fst rows) \<Longrightarrow> ''__proto__'' \<notin> fst ` set rows \<Longrightarrow>
   fst ` set rows \<inter> fst ` set obj = {} \<Longrightarrow>
   fold month_row rows obj = obj @ rows"
proof (induction rows arbitrary: obj)
  case Nil
  then show ?case by simp
next
  case (Cons r rows)
  obtain k v where r: "r = (k, v)" by (cases r)
  from Cons.prems have fresh: "k \<notin> fst ` set obj" and np: "k \<noteq> ''__proto__''"
    by (auto simp: r)
  have step: "month_row (k, v) obj = obj @ [(k, v)]"
    using np by (simp add: month_row_def js_set_def js_update_fresh [OF fresh])
  have "fold month_row rows (obj @ [(k, v)]) = (obj @ [(k, v)]) @ rows"
    using Cons.prems by (intro Cons.IH) (auto simp: r)
  then show ?case by (simp add: step r)
qed

lemma foldl_plus: "foldl (\<lambda>a b. a + b) (t::rat) xs = t + sum_list xs"
  by (induction xs arbitrary: t) (auto simp: add.assoc)

lemma sumForDate_rows_distinct:
  "distinct (map fst rows) \<Longrightarrow> ''__proto__'' \<notin> fst ` set rows \<Longrightarrow>
   sumForDate_rows rows = (sum_list (map snd rows), rows)"
  by (simp add: sumForDate_rows_def fold_date_row)

lemma sumForMonth_rows_distinct:
  "distinct (map fst rows) \<Longrightarrow> ''__proto__'' \<notin> fst ` set rows \<Longrightarrow>
   sumForMonth_rows rows = (sum_list (map snd rows), rows)"
  by (simp add: sumForMonth_rows_def fold_month_row foldl_plus sum_list_Object_values)

subsection \<open>The grouped query\<close>

lemma grouped_sums_distinct: "distinct (map fst (grouped_sums col k cats tbl))"
  by (simp add: grouped_sums_def Let_def comp_def)

lemma grouped_sums_keys: "fst ` set (grouped_sums col k cats tbl) \<subseteq> set cats"
  by (auto simp: grouped_sums_def Let_def)

lemma sum_list_indicator0:
  "x \<notin> set cs \<Longrightarrow> sum_list (map (\<lambda>c. if x = c then v else (0::rat)) cs) = 0"
  by (induction cs) auto

lemma sum_list_indicator:
  "distinct cs \<Longrightarrow> x \<in> set cs \<Longrightarrow> sum_list (map (\<lambda>c. if x = c then v else (0::rat)) cs) = v"
  by (induction cs) (auto simp: sum_list_indicator0)

text \<open>Summing group by group is summing everything, when every element has its group.\<close>

lemma sum_by_group:
  "distinct cs \<Longrightarrow> set (map f xs) \<subseteq> set cs \<Longrightarrow>
   sum_list (map (\<lambda>c. sum_list (map g (filter (\<lambda>e. f e = c) xs))) cs)
   = (sum_list (map g xs) :: rat)"
proof (induction xs)
  case Nil
  then show ?case by simp
next
  case (Cons e xs)
  have "sum_list (map (\<lambda>c. sum_list (map g (filter (\<lambda>e. f e = c) (e # xs)))) cs)
      = sum_list (map (\<lambda>c. (if f e = c then g e else 0)
                           + sum_list (map g (filter (\<lambda>e. f e = c) xs))) cs)"
    by (intro arg_cong [where f = sum_list] map_cong) auto
  also have "\<dots> = sum_list (map (\<lambda>c. if f e = c then g e else 0) cs)
      + sum_list (map (\<lambda>c. sum_list (map g (filter (\<lambda>e. f e = c) xs))) cs)"
    by (simp add: sum_list_addf)
  also have "\<dots> = g e + sum_list (map g xs)"
    using Cons by (simp add: sum_list_indicator)
  finally show ?case by simp
qed

lemma grouped_sums_total:
  "sum_list (map snd (grouped_sums col k cats tbl))
   = sum_list (map amount (filter (\<lambda>e. col e = k \<and> category e \<in> set cats) tbl))"
proof -
  define sel where "sel = filter (\<lambda>e. col e = k \<and> category e \<in> set cats) tbl"
  define cs where "cs = sort (remdups (map category sel))"
  have d: "distinct cs" and sub: "set (map category sel) \<subseteq> set cs"
    by (simp_all add: cs_def)
  have "map snd (grouped_sums col k cats tbl)
      = map (\<lambda>c. sum_list (map amount (filter (\<lambda>e. category e = c) sel))) cs"
    by (simp add: grouped_sums_def sel_def cs_def comp_def)
  then show ?thesis
    using sum_by_group [OF d sub, of amount] by (simp add: sel_def)
qed

lemma sumForDate_total:
  "fst (sumForDate w k cats)
   = sum_list (map amount (filter (\<lambda>e. ts_sg_date e = k \<and> category e \<in> set cats) (expenses w)))"
proof (cases "cats = []")
  case True
  then show ?thesis by (simp add: sumForDate_def)
next
  case False
  then show ?thesis
    by (simp add: sumForDate_def sumForDate_rows_def fold_date_row_total grouped_sums_total)
qed




lemma category_lists:
  "DAILY_CATEGORIES = [''Meals'', ''Drinks'']"
  "MONTHLY_CATEGORIES = [''Groceries'', ''Utilities'', ''Transport'', ''Declan'', ''Myat'']"
  "OTHER_CATEGORIES = [''Other'']"
  by (simp_all add: DAILY_CATEGORIES_def MONTHLY_CATEGORIES_def OTHER_CATEGORIES_def CATEGORIES_def)

section \<open>The monthly summary\<close>





section \<open>The two loops in double arithmetic\<close>

lemma fold_date_row_double:
  "distinct (map fst rows) \<Longrightarrow> ''__proto__'' \<notin> fst ` set rows \<Longrightarrow>
   fst ` set rows \<inter> fst ` set obj = {} \<Longrightarrow>
   fold date_row_double rows (t, obj) = (foldl js_add t (map snd rows), obj @ rows)"
proof (induction rows arbitrary: t obj)
  case Nil
  then show ?case by simp
next
  case (Cons r rows)
  obtain k v where r: "r = (k, v)" by (cases r)
  from Cons.prems have fresh: "k \<notin> fst ` set obj" and np: "k \<noteq> ''__proto__''"
    by (auto simp: r)
  have step: "date_row_double (k, v) (t, obj) = (js_add t v, obj @ [(k, v)])"
    using np by (simp add: date_row_double_def js_set_def js_update_fresh [OF fresh])
  have "fold date_row_double rows (js_add t v, obj @ [(k, v)])
      = (foldl js_add (js_add t v) (map snd rows), (obj @ [(k, v)]) @ rows)"
    using Cons.prems by (intro Cons.IH) (auto simp: r)
  then show ?case by (simp add: step r)
qed

lemma sumForDate_rows_double_distinct:
  "distinct (map fst rows) \<Longrightarrow> ''__proto__'' \<notin> fst ` set rows \<Longrightarrow>
   sumForDate_rows_double rows = (foldl js_add (Finite 0) (map snd rows), rows)"
  by (simp add: sumForDate_rows_double_def fold_date_row_double)

lemma sumForMonth_rows_double_plain:
  assumes "distinct (map fst rows)" and "''__proto__'' \<notin> fst ` set rows"
    and "\<forall>p \<in> set rows. \<not> is_array_index (fst p)"
  shows "sumForMonth_rows_double rows = (foldl js_add (Finite 0) (map snd rows), rows)"
  using assms
  by (simp add: sumForMonth_rows_double_def fold_month_row Object_values_def Object_entries_plain)

text \<open>
  Claim C10, as amended. On grouped rows whose categories are distinct and are neither
  array indices nor the name \<open>__proto__\<close>, the daily aggregation (total accumulated in the
  loop) and the monthly aggregation (total recomputed from the object) return the same
  pair: the per-category object holds the rows in their order, and the total is the sum
  of the values of the object, added as doubles from 0 in the order of \<open>Object.values\<close>.
\<close>

theorem aggregations_agree_on_plain_names:
  assumes "distinct (map fst rows)"
    and "\<forall>c \<in> fst ` set rows. c \<noteq> ''__proto__'' \<and> \<not> is_array_index c"
  shows "sumForDate_rows_double rows = sumForMonth_rows_double rows
     \<and> snd (sumForDate_rows_double rows) = rows
     \<and> fst (sumForDate_rows_double rows)
         = foldl js_add (Finite 0) (Object_values (snd (sumForDate_rows_double rows)))
     \<and> fst (sumForMonth_rows_double rows)
         = foldl js_add (Finite 0) (Object_values (snd (sumForMonth_rows_double rows)))"
proof -
  have np: "''__proto__'' \<notin> fst ` set rows" and ni: "\<forall>p \<in> set rows. \<not> is_array_index (fst p)"
    using assms(2) by auto
  have v: "Object_values rows = map snd rows"
    by (simp add: Object_values_def Object_entries_plain [OF ni])
  show ?thesis
    by (simp add: sumForDate_rows_double_distinct [OF assms(1) np]
        sumForMonth_rows_double_plain [OF assms(1) np ni] v)
qed

theorem aggregations_agree_on_plain_names_witness:
  "grouped_sums_double ts_sg_month ''2025-03'' MONTHLY_CATEGORIES (expenses bills_world)
     = [(''Groceries'', Finite (603 / 4)), (''Transport'', Finite 18), (''Utilities'', Finite (301 / 2))]
   \<and> sumForDate_rows_double
         [(''Groceries'', Finite (603 / 4)), (''Transport'', Finite 18), (''Utilities'', Finite (301 / 2))]
     = (Finite (1277 / 4),
        [(''Groceries'', Finite (603 / 4)), (''Transport'', Finite 18), (''Utilities'', Finite (301 / 2))])
   \<and> sumForMonth_double bills_world ''2025-03'' MONTHLY_CATEGORIES
     = (Finite (1277 / 4),
        [(''Groceries'', Finite (603 / 4)), (''Transport'', Finite 18), (''Utilities'', Finite (301 / 2))])"
proof -
  have g: "grouped_sums_double ts_sg_month ''2025-03'' MONTHLY_CATEGORIES (expenses bills_world)
      = [(''Groceries'', Finite (603 / 4)), (''Transport'', Finite 18), (''Utilities'', Finite (301 / 2))]"
    by code_simp
  have d: "distinct (map fst
      [(''Groceries'', Finite (603 / 4)), (''Transport'', Finite 18), (''Utilities'', Finite (301 / 2))])"
    by simp
  have p: "\<forall>c \<in> fst ` set
        [(''Groceries'', Finite (603 / 4)), (''Transport'', Finite 18), (''Utilities'', Finite (301 / 2))].
      c \<noteq> ''__proto__'' \<and> \<not> is_array_index c"
    by (simp add: is_array_index_def is_digit_def)
  have m: "sumForMonth_double bills_world ''2025-03'' MONTHLY_CATEGORIES
      = (Finite (1277 / 4),
         [(''Groceries'', Finite (603 / 4)), (''Transport'', Finite 18), (''Utilities'', Finite (301 / 2))])"
    by code_simp
  have n: "MONTHLY_CATEGORIES \<noteq> []"
    by (simp add: category_lists)
  show ?thesis
    using aggregations_agree_on_plain_names [OF d p] g m n
    by (simp add: sumForMonth_double_def)
qed

text \<open>
  The rows that the storage returns have distinct categories, all from the list asked for.
  The three lists that the bot passes hold neither an array index nor \<open>__proto__\<close>, so for
  them the two loops agree on every storage.
\<close>

lemma grouped_sums_double_distinct: "distinct (map fst (grouped_sums_double col k cats tbl))"
  by (simp add: grouped_sums_double_def Let_def comp_def)

lemma grouped_sums_double_keys: "fst ` set (grouped_sums_double col k cats tbl) \<subseteq> set cats"
  by (auto simp: grouped_sums_double_def Let_def)

lemma aggregations_agree_on_storage:
  assumes "\<forall>c \<in> set cats. c \<noteq> ''__proto__'' \<and> \<not> is_array_index c"
  shows "sumForDate_rows_double (grouped_sums_double col k cats tbl)
       = sumForMonth_rows_double (grouped_sums_double col k cats tbl)"
proof -
  have np: "''__proto__'' \<notin> fst ` set (grouped_sums_double col k cats tbl)"
    and ni: "\<forall>p \<in> set (grouped_sums_double col k cats tbl). \<not> is_array_index (fst p)"
    using assms grouped_sums_double_keys [of col k cats tbl] by auto
  show ?thesis
    by (simp add: sumForDate_rows_double_distinct [OF grouped_sums_double_distinct np]
        sumForMonth_rows_double_plain [OF grouped_sums_double_distinct np ni])
qed

lemma configured_names_plain:
  "\<forall>c \<in> set DAILY_CATEGORIES \<union> set MONTHLY_CATEGORIES \<union> set OTHER_CATEGORIES.
     c \<noteq> ''__proto__'' \<and> \<not> is_array_index c"
  by (simp add: category_lists is_array_index_def is_digit_def)

text \<open>
  The claim as it stands fails on other names, which the two functions accept in the
  list of categories they are given. With the categories 10, 2 and 9 the daily loop adds
  \<open>10^16 + 1 + 1\<close> in the order of the rows, where each 1 is lost in rounding, and the
  monthly loop adds \<open>1 + 1 + 10^16\<close> in the order of \<open>Object.values\<close>. On a row named
  \<open>__proto__\<close> the assignment to the object is ignored, so the monthly total misses the
  row that the daily total has added.
\<close>

theorem aggregations_differ_on_other_names:
  "index_rows = [(''10'', Finite (10 ^ 16)), (''2'', Finite 1), (''9'', Finite 1)]
   \<and> grouped_sums_double ts_sg_date ''2025-03-15'' [''2'', ''9'', ''10''] (expenses index_world)
     = index_rows
   \<and> sumForDate_rows_double index_rows = (Finite (10 ^ 16), index_rows)
   \<and> sumForMonth_rows_double index_rows = (Finite (10 ^ 16 + 2), index_rows)
   \<and> sumForDate_rows_double [(''__proto__'', Finite 5)] = (Finite 5, [])
   \<and> sumForMonth_rows_double [(''__proto__'', Finite 5)] = (Finite 0, [])"
  by code_simp

section \<open>When the sums of doubles are exact\<close>

lemma sum_abs_filter_le:
  "sum_list (map (\<lambda>e. \<bar>g e\<bar>) (filter P xs)) \<le> (sum_list (map (\<lambda>e. \<bar>g e\<bar>) xs) :: rat)"
  by (induction xs) (auto simp: add_increasing)

lemma adds_exactly_parts:
  assumes "adds_exactly k xs"
  shows "k \<le> 1074" and "list_all (binary_places k) xs" and "sum_list (map abs xs) * 2 ^ k < 2 ^ 53"
  using assms by (simp_all add: adds_exactly_def)

lemma below_bound:
  assumes "x \<le> y" and "y * 2 ^ k < (2::rat) ^ 53"
  shows "x * 2 ^ k < 2 ^ 53"
proof -
  have "x * 2 ^ k \<le> y * (2::rat) ^ k"
    using assms(1) by (intro mult_right_mono) simp_all
  then show ?thesis
    using assms(2) by (rule order_le_less_trans)
qed

lemma SUM_double_exact:
  assumes "k \<le> 1074" and "list_all (binary_places k) xs"
    and "sum_list (map abs xs) * 2 ^ k < 2 ^ 53"
  shows "SUM_double xs = Finite (sum_list xs)"
  using foldl_js_add_exact [OF assms(1) binary_places_zero assms(2)] assms(3)
  by (simp add: SUM_double_def)

text \<open>The query in double arithmetic returns the exact sums.\<close>

lemma grouped_sums_double_exact:
  assumes "adds_exactly k (map amount (filter (\<lambda>e. col e = key \<and> category e \<in> set cats) tbl))"
  shows "grouped_sums_double col key cats tbl
       = map (\<lambda>p. (fst p, Finite (snd p))) (grouped_sums col key cats tbl)"
proof -
  define sel where "sel = filter (\<lambda>e. col e = key \<and> category e \<in> set cats) tbl"
  note h = adds_exactly_parts [OF assms, folded sel_def]
  have "SUM_double (map amount (filter (\<lambda>e. category e = c) sel))
      = Finite (sum_list (map amount (filter (\<lambda>e. category e = c) sel)))" for c
  proof (rule SUM_double_exact [OF h(1)])
    show "list_all (binary_places k) (map amount (filter (\<lambda>e. category e = c) sel))"
      using h(2) by (auto simp: list_all_iff)
    have "sum_list (map abs (map amount (filter (\<lambda>e. category e = c) sel)))
        \<le> sum_list (map abs (map amount sel))"
      using sum_abs_filter_le [of amount "\<lambda>e. category e = c" sel] by (simp add: comp_def)
    then show "sum_list (map abs (map amount (filter (\<lambda>e. category e = c) sel))) * 2 ^ k < 2 ^ 53"
      using h(3) by (rule below_bound)
  qed
  then show ?thesis
    by (simp add: grouped_sums_double_def grouped_sums_def sel_def [symmetric] comp_def)
qed

lemma grouped_sums_places:
  assumes "list_all (binary_places k) (map amount (filter (\<lambda>e. col e = key \<and> category e \<in> set cats) tbl))"
  shows "list_all (binary_places k) (map snd (grouped_sums col key cats tbl))"
proof -
  have "binary_places k (sum_list (map amount (filter (\<lambda>e. category e = c)
      (filter (\<lambda>e. col e = key \<and> category e \<in> set cats) tbl))))" for c
    using assms by (intro binary_places_sum_list) (auto simp: list_all_iff)
  then show ?thesis
    by (simp add: grouped_sums_def list_all_iff comp_def)
qed

lemma grouped_sums_abs:
  "sum_list (map (\<lambda>p. \<bar>snd p\<bar>) (grouped_sums col key cats tbl))
   \<le> sum_list (map (\<lambda>e. \<bar>amount e\<bar>) (filter (\<lambda>e. col e = key \<and> category e \<in> set cats) tbl))"
proof -
  define sel where "sel = filter (\<lambda>e. col e = key \<and> category e \<in> set cats) tbl"
  define cs where "cs = sort (remdups (map category sel))"
  have d: "distinct cs" and sub: "set (map category sel) \<subseteq> set cs"
    by (simp_all add: cs_def)
  have "sum_list (map (\<lambda>p. \<bar>snd p\<bar>) (grouped_sums col key cats tbl))
      = sum_list (map (\<lambda>c. \<bar>sum_list (map amount (filter (\<lambda>e. category e = c) sel))\<bar>) cs)"
    by (simp add: grouped_sums_def sel_def cs_def comp_def)
  also have "\<dots> \<le> sum_list (map (\<lambda>c. sum_list (map (\<lambda>e. \<bar>amount e\<bar>) (filter (\<lambda>e. category e = c) sel))) cs)"
  proof (rule sum_list_mono)
    fix c
    show "\<bar>sum_list (map amount (filter (\<lambda>e. category e = c) sel))\<bar>
        \<le> sum_list (map (\<lambda>e. \<bar>amount e\<bar>) (filter (\<lambda>e. category e = c) sel))"
      using sum_list_abs [of "map amount (filter (\<lambda>e. category e = c) sel)"]
      by (simp add: comp_def)
  qed
  also have "\<dots> = sum_list (map (\<lambda>e. \<bar>amount e\<bar>) sel)"
    by (rule sum_by_group [OF d sub])
  finally show ?thesis
    by (simp add: sel_def)
qed

text \<open>The daily loop in double arithmetic follows the loop without rounding.\<close>

lemma fold_date_row_double_exact:
  assumes "k \<le> 1074"
  shows "binary_places k t \<Longrightarrow> list_all (binary_places k) (map snd rows) \<Longrightarrow>
     (\<bar>t\<bar> + sum_list (map (\<lambda>p. \<bar>snd p\<bar>) rows)) * 2 ^ k < 2 ^ 53 \<Longrightarrow>
     fold date_row_double (map (\<lambda>p. (fst p, Finite (snd p))) rows)
       (Finite t, map (\<lambda>p. (fst p, Finite (snd p))) obj)
     = (Finite (fst (fold date_row rows (t, obj))),
        map (\<lambda>p. (fst p, Finite (snd p))) (snd (fold date_row rows (t, obj))))"
proof (induction rows arbitrary: t obj)
  case Nil
  then show ?case by simp
next
  case (Cons r rows)
  obtain c v where r: "r = (c, v)" by (cases r)
  have nn: "0 \<le> sum_list (map (\<lambda>p. \<bar>snd p\<bar>) rows)"
    by (rule sum_list_nonneg) auto
  have b1: "(\<bar>t\<bar> + \<bar>v\<bar>) * 2 ^ k < (2::rat) ^ 53"
    using nn by (intro below_bound [OF _ Cons.prems(3)]) (simp add: r)
  have add: "js_add (Finite t) (Finite v) = Finite (t + v)"
    using Cons.prems(1,2) b1 by (intro js_add_exact [OF assms]) (simp_all add: r)
  have step: "date_row_double (c, Finite v) (Finite t, map (\<lambda>p. (fst p, Finite (snd p))) obj)
      = (Finite (t + v), map (\<lambda>p. (fst p, Finite (snd p))) (js_set c v obj))"
    unfolding date_row_double_def prod.case fst_conv snd_conv add
    by (simp add: js_set_map [of c Finite v obj])
  have ex: "date_row (c, v) (t, obj) = (t + v, js_set c v obj)"
    by (simp add: date_row_def)
  have b2: "(\<bar>t + v\<bar> + sum_list (map (\<lambda>p. \<bar>snd p\<bar>) rows)) * 2 ^ k < (2::rat) ^ 53"
    by (intro below_bound [OF _ Cons.prems(3)]) (simp add: r)
  have "fold date_row_double (map (\<lambda>p. (fst p, Finite (snd p))) rows)
      (Finite (t + v), map (\<lambda>p. (fst p, Finite (snd p))) (js_set c v obj))
    = (Finite (fst (fold date_row rows (t + v, js_set c v obj))),
       map (\<lambda>p. (fst p, Finite (snd p))) (snd (fold date_row rows (t + v, js_set c v obj))))"
    using Cons.prems(1,2) b2 by (intro Cons.IH) (simp_all add: r binary_places_add)
  then show ?case
    by (simp add: r step ex)
qed

lemma rows_double_exact:
  assumes "adds_exactly k (map amount (filter (\<lambda>e. col e = key \<and> category e \<in> set cats) tbl))"
  shows "sumForDate_rows_double (grouped_sums_double col key cats tbl)
       = (Finite (fst (sumForDate_rows (grouped_sums col key cats tbl))),
          map (\<lambda>p. (fst p, Finite (snd p))) (snd (sumForDate_rows (grouped_sums col key cats tbl))))"
proof -
  define sel where "sel = filter (\<lambda>e. col e = key \<and> category e \<in> set cats) tbl"
  define rows where "rows = grouped_sums col key cats tbl"
  note h = adds_exactly_parts [OF assms, folded sel_def]
  have le: "\<bar>0\<bar> + sum_list (map (\<lambda>p. \<bar>snd p\<bar>) rows) \<le> sum_list (map abs (map amount sel))"
    using grouped_sums_abs [of col key cats tbl]
    unfolding rows_def sel_def by (simp add: comp_def)
  have b: "(\<bar>0\<bar> + sum_list (map (\<lambda>p. \<bar>snd p\<bar>) rows)) * 2 ^ k < (2::rat) ^ 53"
    using le h(3) by (rule below_bound)
  have pl: "list_all (binary_places k) (map snd rows)"
    unfolding rows_def by (rule grouped_sums_places [OF h(2) [unfolded sel_def]])
  have f: "fold date_row_double (map (\<lambda>p. (fst p, Finite (snd p))) rows)
      (Finite 0, map (\<lambda>p. (fst p, Finite (snd p))) [])
    = (Finite (fst (fold date_row rows (0, []))),
       map (\<lambda>p. (fst p, Finite (snd p))) (snd (fold date_row rows (0, []))))"
    by (rule fold_date_row_double_exact [OF h(1) binary_places_zero pl b])
  have g: "grouped_sums_double col key cats tbl = map (\<lambda>p. (fst p, Finite (snd p))) rows"
    unfolding rows_def by (rule grouped_sums_double_exact [OF assms])
  show ?thesis
    using f by (simp add: sumForDate_rows_double_def sumForDate_rows_def g rows_def [symmetric])
qed

text \<open>
  So the two functions in double arithmetic return what the functions without rounding
  return, for amounts that add exactly; for the monthly one the categories asked for are
  to be plain names, as those of the configuration are.
\<close>

lemma sumForDate_double_exact:
  assumes "adds_exactly k (map amount (filter (\<lambda>e. ts_sg_date e = D \<and> category e \<in> set cats) (expenses w)))"
  shows "sumForDate_double w D cats
       = (Finite (fst (sumForDate w D cats)),
          map (\<lambda>p. (fst p, Finite (snd p))) (snd (sumForDate w D cats)))"
proof (cases "cats = []")
  case True
  then show ?thesis
    by (simp add: sumForDate_double_def sumForDate_def)
next
  case False
  then show ?thesis
    by (simp add: sumForDate_double_def sumForDate_def rows_double_exact [OF assms])
qed

lemma sumForMonth_double_exact:
  assumes "adds_exactly k (map amount (filter (\<lambda>e. ts_sg_month e = M \<and> category e \<in> set cats) (expenses w)))"
    and "\<forall>c \<in> set cats. c \<noteq> ''__proto__'' \<and> \<not> is_array_index c"
  shows "sumForMonth_double w M cats
       = (Finite (fst (sumForMonth w M cats)),
          map (\<lambda>p. (fst p, Finite (snd p))) (snd (sumForMonth w M cats)))"
proof (cases "cats = []")
  case True
  then show ?thesis
    by (simp add: sumForMonth_double_def sumForMonth_def)
next
  case False
  have np: "''__proto__'' \<notin> fst ` set (grouped_sums ts_sg_month M cats (expenses w))"
    using assms(2) grouped_sums_keys [of ts_sg_month M cats "expenses w"] by blast
  have e: "sumForMonth_rows (grouped_sums ts_sg_month M cats (expenses w))
      = sumForDate_rows (grouped_sums ts_sg_month M cats (expenses w))"
    by (simp add: sumForMonth_rows_distinct [OF grouped_sums_distinct np]
        sumForDate_rows_distinct [OF grouped_sums_distinct np])
  show ?thesis
    using False
    by (simp add: sumForMonth_double_def sumForMonth_def e
        aggregations_agree_on_storage [OF assms(2), symmetric] rows_double_exact [OF assms(1)])
qed

section \<open>The daily summary after an insert\<close>

lemma budget_values: "dailyBudgetForSgDateString s = 50 \<or> dailyBudgetForSgDateString s = 80"
  by (simp add: dailyBudgetForSgDateString_def Let_def WEEKDAY_DAILY_BUDGET_def
      WEEKEND_DAILY_BUDGET_def)

text \<open>What is left of the budget, when the amounts of the day add without rounding.\<close>

lemma remaining_exact:
  assumes "adds_exactly k (80 # xs)"
  shows "js_sub (Finite (dailyBudgetForSgDateString s)) (Finite (sum_list xs))
       = Finite (dailyBudgetForSgDateString s - sum_list xs)"
proof -
  note h = adds_exactly_parts [OF assms]
  define b where "b = dailyBudgetForSgDateString s"
  have bv: "b = 50 \<or> b = 80"
    unfolding b_def by (rule budget_values)
  have bp: "binary_places k b"
    using bv binary_places_int [of k 50] binary_places_int [of k 80] by auto
  have xp: "binary_places k (- sum_list xs)"
    using h(2) by (intro binary_places_minus binary_places_sum_list) simp
  have bb: "\<bar>b\<bar> \<le> 80"
    using bv by auto
  have "\<bar>- sum_list xs\<bar> \<le> sum_list (map abs xs)"
    using sum_list_abs [of xs] by simp
  with bb have le: "\<bar>b\<bar> + \<bar>- sum_list xs\<bar> \<le> 80 + sum_list (map abs xs)"
    by (rule add_mono)
  have "(80 + sum_list (map abs xs)) * 2 ^ k < (2::rat) ^ 53"
    using h(3) by simp
  with le have "(\<bar>b\<bar> + \<bar>- sum_list xs\<bar>) * 2 ^ k < (2::rat) ^ 53"
    by (rule below_bound)
  then have "js_add (Finite b) (Finite (- sum_list xs)) = Finite (b + - sum_list xs)"
    by (rule js_add_exact [OF h(1) bp xp])
  then show ?thesis
    by (simp add: js_sub_def b_def)
qed

lemma adds_exactly_tail:
  assumes "adds_exactly k (x # xs)"
  shows "adds_exactly k xs"
proof -
  note h = adds_exactly_parts [OF assms]
  have "sum_list (map abs xs) \<le> sum_list (map abs (x # xs))"
    by simp
  then have "sum_list (map abs xs) * 2 ^ k < (2::rat) ^ 53"
    using h(3) by (rule below_bound)
  then show ?thesis
    using h(1,2) by (simp add: adds_exactly_def)
qed

lemma adds_exactly_swap: "adds_exactly k (x # y # xs) \<Longrightarrow> adds_exactly k (x # xs @ [y])"
  by (simp add: adds_exactly_def add.commute add.left_commute)




lemma adds_exactly_drop:
  assumes "adds_exactly k (x # y # xs)"
  shows "adds_exactly k (x # xs)"
proof -
  note h = adds_exactly_parts [OF assms]
  have "sum_list (map abs (x # xs)) \<le> sum_list (map abs (x # y # xs))"
    by simp
  then have "sum_list (map abs (x # xs)) * 2 ^ k < (2::rat) ^ 53"
    using h(3) by (rule below_bound)
  then show ?thesis
    using h(1,2) by (simp add: adds_exactly_def)
qed

text \<open>
  Claim C8, as amended. Let \<open>D\<close> be the local date of the clock at the insert, a well-formed
  date string, and let the category be of kind daily. The daily summary for \<open>D\<close> is
  returned before and after the insert of an expense of amount \<open>a\<close>, with the same budget,
  and in both the remainder is the budget minus the spend, rounded to a double. When the
  amount and the amounts already spent that day in the categories of kind daily are
  multiples of some \<open>2^-k\<close> whose absolute values, together with 80 for the budget, add up
  to less than \<open>2^53\<close> such units (amounts in whole or quarter units of currency, say), no
  sum is rounded: the spend is the exact sum of the day, it has grown by exactly \<open>a\<close>, the
  remainder has shrunk by exactly \<open>a\<close>, and for a negative amount the spend has gone down.
\<close>

theorem daily_summary_after_insert:
  assumes "c \<in> set DAILY_CATEGORIES" and "matches_date_pattern D" and "tsSgDate now = D"
  shows "\<exists>s s'. getDailySummaryData_double w n1 (Some D) = Inr s
      \<and> getDailySummaryData_double (insertExpense now u c a w) n2 (Some D) = Inr s'
      \<and> budget_daily s' = budget_daily s
      \<and> remaining_daily s = js_sub (budget_daily s) (spent_daily s)
      \<and> remaining_daily s' = js_sub (budget_daily s') (spent_daily s')
      \<and> (adds_exactly k (80 # a # map amount (filter
              (\<lambda>e. ts_sg_date e = D \<and> category e \<in> set DAILY_CATEGORIES) (expenses w)))
         \<longrightarrow> (\<exists>x. x = sum_list (map amount (filter
                       (\<lambda>e. ts_sg_date e = D \<and> category e \<in> set DAILY_CATEGORIES) (expenses w)))
                \<and> spent_daily s = Finite x \<and> spent_daily s' = Finite (x + a)
                \<and> remaining_daily s = Finite (dailyBudgetForSgDateString D - x)
                \<and> remaining_daily s' = Finite (dailyBudgetForSgDateString D - x - a)
                \<and> (a < 0 \<longrightarrow> x + a < x)))"
proof -
  define sel where "sel = filter (\<lambda>e. ts_sg_date e = D \<and> category e \<in> set DAILY_CATEGORIES) (expenses w)"
  define new where "new = \<lparr>ts_utc = tsUtc now, ts_sg_date = tsSgDate now, ts_sg_month = tsSgMonth now,
      user_id = u, category = c, amount = a\<rparr>"
  define w' where "w' = insertExpense now u c a w"
  have sel': "filter (\<lambda>e. ts_sg_date e = D \<and> category e \<in> set DAILY_CATEGORIES) (expenses w')
      = sel @ [new]"
    using assms(1,3) by (simp add: w'_def insertExpense_def sel_def new_def)
  have ne: "D \<noteq> []"
    using assms(2) by (auto simp: matches_date_pattern_def)
  have n: "normalizeSgDateString D = Some D"
    using assms(2) by (simp add: normalizeSgDateString_def)
  define b where "b = dailyBudgetForSgDateString D"
  define s where "s = \<lparr>date = D, timezone = SG_TIMEZONE, budget_daily = Finite b,
      spent_daily = fst (sumForDate_double w D DAILY_CATEGORIES),
      remaining_daily = js_sub (Finite b) (fst (sumForDate_double w D DAILY_CATEGORIES)),
      by_category = snd (sumForDate_double w D DAILY_CATEGORIES)\<rparr>"
  define s' where "s' = \<lparr>date = D, timezone = SG_TIMEZONE, budget_daily = Finite b,
      spent_daily = fst (sumForDate_double w' D DAILY_CATEGORIES),
      remaining_daily = js_sub (Finite b) (fst (sumForDate_double w' D DAILY_CATEGORIES)),
      by_category = snd (sumForDate_double w' D DAILY_CATEGORIES)\<rparr>"
  have g: "getDailySummaryData_double w n1 (Some D) = Inr s"
    and g': "getDailySummaryData_double w' n2 (Some D) = Inr s'"
    by (simp_all add: getDailySummaryData_double_def ne n Let_def s_def s'_def b_def)
  have exact: "\<exists>x. x = sum_list (map amount sel)
      \<and> spent_daily s = Finite x \<and> spent_daily s' = Finite (x + a)
      \<and> remaining_daily s = Finite (b - x) \<and> remaining_daily s' = Finite (b - x - a)
      \<and> (a < 0 \<longrightarrow> x + a < x)"
    if h: "adds_exactly k (80 # a # map amount sel)"
  proof -
    have h1: "adds_exactly k (80 # map amount sel)"
      using h by (rule adds_exactly_drop)
    have h2: "adds_exactly k (80 # map amount (sel @ [new]))"
      using adds_exactly_swap [OF h] by (simp add: new_def)
    have sp: "fst (sumForDate_double w D DAILY_CATEGORIES) = Finite (sum_list (map amount sel))"
      using sumForDate_double_exact [of k D DAILY_CATEGORIES w] adds_exactly_tail [OF h1]
      by (simp add: sel_def sumForDate_total)
    have sp': "fst (sumForDate_double w' D DAILY_CATEGORIES) = Finite (sum_list (map amount sel) + a)"
      using sumForDate_double_exact [of k D DAILY_CATEGORIES w'] adds_exactly_tail [OF h2]
      by (simp add: sel' sumForDate_total new_def)
    have r: "js_sub (Finite b) (Finite (sum_list (map amount sel)))
        = Finite (b - sum_list (map amount sel))"
      unfolding b_def by (rule remaining_exact [OF h1])
    have r': "js_sub (Finite b) (Finite (sum_list (map amount sel) + a))
        = Finite (b - sum_list (map amount sel) - a)"
      using remaining_exact [OF h2, of D] by (simp add: b_def new_def algebra_simps)
    show ?thesis
      by (simp add: s_def s'_def sp sp' r r')
  qed
  then have c4: "adds_exactly k (80 # a # map amount sel)
      \<longrightarrow> (\<exists>x. x = sum_list (map amount sel)
            \<and> spent_daily s = Finite x \<and> spent_daily s' = Finite (x + a)
            \<and> remaining_daily s = Finite (b - x) \<and> remaining_daily s' = Finite (b - x - a)
            \<and> (a < 0 \<longrightarrow> x + a < x))"
    by blast
  have c1: "budget_daily s' = budget_daily s"
    and c2: "remaining_daily s = js_sub (budget_daily s) (spent_daily s)"
    and c3: "remaining_daily s' = js_sub (budget_daily s') (spent_daily s')"
    by (simp_all add: s_def s'_def)
  from g g' [unfolded w'_def] c1 c2 c3 c4 [unfolded sel_def b_def]
  show ?thesis
    by blast
qed

theorem daily_summary_after_insert_witness:
  "''Meals'' \<in> set DAILY_CATEGORIES \<and> matches_date_pattern ''2025-03-15''
   \<and> tsSgDate example_now = ''2025-03-15''
   \<and> adds_exactly 2 (80 # 25 / 2 # map amount (filter
         (\<lambda>e. ts_sg_date e = ''2025-03-15'' \<and> category e \<in> set DAILY_CATEGORIES)
         (expenses quarters_world)))
   \<and> (\<exists>s s'. getDailySummaryData_double quarters_world example_now (Some ''2025-03-15'') = Inr s
        \<and> getDailySummaryData_double (insertExpense example_now 1001 ''Meals'' (25 / 2) quarters_world)
             example_now (Some ''2025-03-15'') = Inr s'
        \<and> spent_daily s = Finite (63 / 4) \<and> spent_daily s' = Finite (63 / 4 + 25 / 2)
        \<and> remaining_daily s = Finite (80 - 63 / 4)
        \<and> remaining_daily s' = Finite (80 - 63 / 4 - 25 / 2))"
proof -
  have c: "''Meals'' \<in> set DAILY_CATEGORIES"
    by (simp add: category_lists)
  have p: "matches_date_pattern ''2025-03-15''"
    by (simp add: matches_date_pattern_def is_digit_def)
  have d: "tsSgDate example_now = ''2025-03-15''"
    by (simp add: example_now_def)
  have x: "sum_list (map amount (filter
      (\<lambda>e. ts_sg_date e = ''2025-03-15'' \<and> category e \<in> set DAILY_CATEGORIES)
      (expenses quarters_world))) = 63 / 4"
    by code_simp
  have h: "adds_exactly 2 (80 # 25 / 2 # map amount (filter
      (\<lambda>e. ts_sg_date e = ''2025-03-15'' \<and> category e \<in> set DAILY_CATEGORIES)
      (expenses quarters_world)))"
    by code_simp
  have b: "dailyBudgetForSgDateString ''2025-03-15'' = 80"
    by code_simp
  from daily_summary_after_insert [OF c p d, of quarters_world example_now 1001 "25 / 2" example_now 2]
  show ?thesis
    using c p d h unfolding x b by blast
qed

text \<open>
  The claim as it stands fails where a sum is rounded. After 0.1 for drinks and 0.2 for
  meals the spend of the day is 0.30000000000000004; an expense of 0.3 for meals makes it
  0.6, which is less than 0.3 more, where adding 0.3 to the spend before gives
  0.6000000000000001. And beside \<open>10^17\<close> for meals an expense of 1 for drinks, or a refund
  of 1, leaves the spend as it was.
\<close>

theorem increase_is_rounded:
  "map_sum id spent_daily (getDailySummaryData_double tenths_world example_now (Some ''2025-03-15''))
     = Inr (js_Number ''0.30000000000000004'')
   \<and> map_sum id spent_daily (getDailySummaryData_double
         (insertExpense example_now 1001 ''Meals'' (amount_of_text ''0.3'') tenths_world)
         example_now (Some ''2025-03-15''))
     = Inr (js_Number ''0.6'')
   \<and> amount_of_text ''0.6'' - amount_of_text ''0.30000000000000004'' < amount_of_text ''0.3''
   \<and> js_add (js_Number ''0.30000000000000004'') (js_Number ''0.3'') = js_Number ''0.6000000000000001''
   \<and> js_Number ''0.6000000000000001'' \<noteq> js_Number ''0.6''
   \<and> map_sum id spent_daily (getDailySummaryData_double large_world example_now (Some ''2025-03-15''))
     = Inr (Finite (10 ^ 17))
   \<and> map_sum id spent_daily (getDailySummaryData_double
         (insertExpense example_now 1001 ''Drinks'' 1 large_world) example_now (Some ''2025-03-15''))
     = Inr (Finite (10 ^ 17))
   \<and> map_sum id spent_daily (getDailySummaryData_double
         (insertExpense example_now 1001 ''Drinks'' (- 1) large_world) example_now (Some ''2025-03-15''))
     = Inr (Finite (10 ^ 17))"
  by code_simp

text \<open>
  The amounts 0.1 and 0.2 of this example are what the bot stores when the user enters
  them as texts.
\<close>

lemma tenths_world_reachable:
  "map (\<lambda>e. (ts_sg_date e, category e, amount e))
     (expenses (run [(example_env, example_now, text_update 1001 ''/add''),
                     (example_env, example_now, text_update 1001 ''Drinks''),
                     (example_env, example_now, text_update 1001 ''0.1''),
                     (example_env, example_now, text_update 1001 ''/add''),
                     (example_env, example_now, text_update 1001 ''Meals''),
                     (example_env, example_now, text_update 1001 ''0.2'')] empty_world))
   = map (\<lambda>e. (ts_sg_date e, category e, amount e)) (expenses tenths_world)"
  by code_simp

section \<open>The state table\<close>

lemma user_state_sendMessage [simp]: "user_state (sendMessage c m k w) = user_state w"
  by (simp add: sendMessage_def)

lemma user_state_insertExpense [simp]: "user_state (insertExpense n u c a w) = user_state w"
  by (simp add: insertExpense_def)

lemma expenses_sendMessage [simp]: "expenses (sendMessage c m k w) = expenses w"
  by (simp add: sendMessage_def)

lemma expenses_setUserState [simp]: "expenses (setUserState u s c w) = expenses w"
  by (simp add: setUserState_def)

lemma expenses_clearUserState [simp]: "expenses (clearUserState u w) = expenses w"
  by (simp add: clearUserState_def)

lemma list_all_upsert: "list_all P rows \<Longrightarrow> P (u, r) \<Longrightarrow> list_all P (upsert u r rows)"
  by (induction rows) auto

lemma invariant_sendMessage [simp]: "state_invariant (sendMessage c m k w) = state_invariant w"
  by (simp add: state_invariant_def)

lemma invariant_insertExpense [simp]:
  "state_invariant (insertExpense n u c a w) = state_invariant w"
  by (simp add: state_invariant_def)

lemma invariant_clearUserState: "state_invariant w \<Longrightarrow> state_invariant (clearUserState u w)"
  by (simp add: state_invariant_def clearUserState_def list_all_iff)

lemma invariant_setUserState:
  "state_invariant w \<Longrightarrow> (cat \<noteq> None) = (stp = ''await_amount'') \<Longrightarrow>
   state_invariant (setUserState u stp cat w)"
  by (simp add: state_invariant_def setUserState_def list_all_upsert row_ok_def)

lemma invariant_dispatch:
  "state_invariant w \<Longrightarrow> state_invariant (dispatch_command now cmd c u w)"
  by (simp add: dispatch_command_def handleStart_def handleAdd_def handleToday_def
      handleMonth_def invariant_setUserState split: sum.splits)

lemma invariant_conversation:
  "state_invariant w \<Longrightarrow> state_invariant (conversation now txt c u w)"
  by (simp add: conversation_def Let_def invariant_setUserState invariant_clearUserState
      split: option.splits jsnum.splits)

lemma invariant_handle:
  "state_invariant w \<Longrightarrow> state_invariant (handleTelegramUpdate e now upd w)"
  by (simp add: handleTelegramUpdate_def Let_def invariant_dispatch invariant_conversation
      invariant_clearUserState split: option.splits)

lemma invariant_run: "state_invariant w \<Longrightarrow> state_invariant (run evs w)"
  by (induction evs arbitrary: w) (auto simp: invariant_handle)

lemma invariant_empty: "state_invariant empty_world"
  by (simp add: state_invariant_def empty_world_def)

text \<open>
  Claim C5. In every row of the state table the pending category is present exactly when
  the step is \<open>await_amount\<close>: this holds of the empty table and of the table after any
  history of updates, and each operation that writes the table (the start of \<open>/add\<close>,
  the selection of a category, the reset, and so the whole handler) keeps it.
\<close>

theorem pending_category_invariant:
  "state_invariant empty_world
   \<and> state_invariant (run evs empty_world)
   \<and> (state_invariant w \<longrightarrow>
        state_invariant (setUserState u ''choose_category'' None w)
        \<and> state_invariant (setUserState u ''await_amount'' (Some cat) w)
        \<and> state_invariant (clearUserState u w)
        \<and> state_invariant (handleTelegramUpdate e now upd w)
        \<and> state_invariant (run evs w))"
  by (simp add: invariant_empty invariant_run invariant_handle invariant_clearUserState
      invariant_setUserState)

theorem pending_category_invariant_witness:
  "state_invariant awaiting_world
   \<and> state_invariant (setUserState 1002 ''choose_category'' None awaiting_world)
   \<and> state_invariant (handleTelegramUpdate example_env example_now (text_update 1001 ''12.50'')
        awaiting_world)"
proof -
  have "state_invariant awaiting_world"
    by (simp add: state_invariant_def awaiting_world_def row_ok_def)
  then show ?thesis
    using pending_category_invariant [where evs = "[]" and w = awaiting_world and u = 1002
        and cat = "''Meals''" and e = example_env and now = example_now
        and upd = "text_update 1001 ''12.50''"]
    by simp
qed

section \<open>Commands\<close>

text \<open>What the handler does with a message that it admits.\<close>

lemma handle_admitted:
  assumes "incoming upd = Some m" and "from_id m = Some u" and "chat_id m = Some c"
    and "u \<noteq> 0" and "c \<noteq> 0" and "num u \<in> set (parseAllowedUserIds e)"
    and "txt = js_trim (case message_text m of None \<Rightarrow> [] | Some t \<Rightarrow> t)"
  shows "handleTelegramUpdate e now upd w =
     (if startsWith txt ''/'' then dispatch_command now (first_token txt) c u (clearUserState u w)
      else conversation now txt c u w)"
  using assms by (simp add: handleTelegramUpdate_def Let_def)

text \<open>A message from a sender outside the allow-list is dropped: nothing is dispatched.\<close>

lemma handle_dropped:
  assumes "incoming upd = Some m" and "from_id m = Some u"
    and "num u \<notin> set (parseAllowedUserIds e)"
  shows "handleTelegramUpdate e now upd w = w"
  using assms by (simp add: handleTelegramUpdate_def split: option.splits)

lemma clear_after_upsert:
  "filter (\<lambda>row. fst row \<noteq> u) (upsert u r rows) = filter (\<lambda>row. fst row \<noteq> u) rows"
  by (induction rows) auto

lemma clear_after_set: "clearUserState u (setUserState u stp cat w) = clearUserState u w"
  by (simp add: clearUserState_def setUserState_def clear_after_upsert)

lemma map_of_cleared: "map_of (filter (\<lambda>row. fst row \<noteq> u) rows) u = None"
  by (induction rows) auto

lemma get_after_clear: "getUserState (clearUserState u w) u = None"
  by (simp add: getUserState_def clearUserState_def map_of_cleared)

text \<open>
  Claim C9. A message admitted by the handler (it has a sender and a chat, and the sender
  is on the allow-list) whose trimmed text starts with a slash is handled by dispatching
  the command on the world in which the sender's state row has been deleted: the sender is
  idle at the dispatch, and the outcome is the same whatever step and pending category
  the sender had before.
\<close>

theorem command_resets_state:
  assumes "incoming upd = Some m" and "from_id m = Some u" and "chat_id m = Some c"
    and "u \<noteq> 0" and "c \<noteq> 0" and "num u \<in> set (parseAllowedUserIds e)"
    and "txt = js_trim (case message_text m of None \<Rightarrow> [] | Some t \<Rightarrow> t)"
    and "startsWith txt ''/''"
  shows "handleTelegramUpdate e now upd w
       = dispatch_command now (first_token txt) c u (clearUserState u w)
     \<and> getUserState (clearUserState u w) u = None
     \<and> handleTelegramUpdate e now upd (setUserState u stp cat w) = handleTelegramUpdate e now upd w
     \<and> handleTelegramUpdate e now upd (clearUserState u w) = handleTelegramUpdate e now upd w"
proof -
  have h: "handleTelegramUpdate e now upd w'
      = dispatch_command now (first_token txt) c u (clearUserState u w')" for w'
    using handle_admitted [OF assms(1-7)] assms(8) by simp
  have "clearUserState u (clearUserState u w) = clearUserState u w"
    by (simp add: clearUserState_def)
  then show ?thesis
    by (simp add: h clear_after_set get_after_clear)
qed

lemma example_allowed: "num 1001 \<in> set (parseAllowedUserIds example_env)"
  by code_simp

lemma incoming_text_update:
  "incoming (text_update u t) = Some \<lparr>from_id = Some u, chat_id = Some u, message_text = Some t\<rparr>"
  by (simp add: incoming_def text_update_def)

theorem command_resets_state_witness:
  "handleTelegramUpdate example_env example_now (text_update 1001 ''/today'') awaiting_world
     = dispatch_command example_now ''/today'' 1001 1001 (clearUserState 1001 awaiting_world)
   \<and> getUserState awaiting_world 1001 = Some (''await_amount'', Some ''Meals'')
   \<and> getUserState (clearUserState 1001 awaiting_world) 1001 = None
   \<and> handleTelegramUpdate example_env example_now (text_update 1001 ''/today'')
        (setUserState 1001 ''choose_category'' None awaiting_world)
     = handleTelegramUpdate example_env example_now (text_update 1001 ''/today'') awaiting_world"
proof -
  have t: "''/today'' = js_trim (case message_text
      \<lparr>from_id = Some 1001, chat_id = Some 1001, message_text = Some ''/today''\<rparr>
      of None \<Rightarrow> [] | Some t \<Rightarrow> t)"
    by code_simp
  have s: "startsWith ''/today'' ''/''"
    by (simp add: startsWith_def)
  have f: "first_token ''/today'' = ''/today''"
    by code_simp
  have g: "getUserState awaiting_world 1001 = Some (''await_amount'', Some ''Meals'')"
    by (simp add: getUserState_def awaiting_world_def)
  from command_resets_state [OF incoming_text_update _ _ _ _ example_allowed t s,
      where now = example_now and w = awaiting_world and stp = "''choose_category''"
      and cat = None]
  show ?thesis
    by (simp add: f g)
qed

section \<open>Choosing a category\<close>

lemma conversation_known_category:
  assumes "getUserState w u = Some (''choose_category'', cat0)"
    and "txt \<in> set (Object_keys CATEGORIES)"
  shows "conversation now txt c u w
     = sendMessage c (EnterAmount txt) None (setUserState u ''await_amount'' (Some txt) w)"
  using assms by (simp add: conversation_def js_in_def set_Object_keys)

lemma conversation_unknown_text:
  assumes "getUserState w u = Some (''choose_category'', cat0)"
    and "txt \<notin> set (Object_keys CATEGORIES)" and "txt \<notin> set Object_prototype_keys"
  shows "conversation now txt c u w = sendMessage c TapCategory (Some buildCategoryKeyboard) w"
  using assms by (simp add: conversation_def js_in_def set_Object_keys)

lemma conversation_inherited_name:
  assumes "getUserState w u = Some (''choose_category'', cat0)"
    and "txt \<in> set Object_prototype_keys"
  shows "conversation now txt c u w
     = sendMessage c (EnterAmount txt) None (setUserState u ''await_amount'' (Some txt) w)"
  using assms by (simp add: conversation_def js_in_def)

text \<open>
  Claim C1 at the input \<open>toString\<close>. The sender is choosing a category and sends a text
  that is no configured category name; the test \<open>text in CATEGORIES\<close> finds the name on
  the prototype of the object, and the sender is moved to \<open>await_amount\<close> with that text
  as the pending category. (The two lemmas before this one give the behaviour the claim
  describes for every other text.)
\<close>

theorem inherited_name_taken_as_category:
  "''toString'' \<notin> set (Object_keys CATEGORIES)
   \<and> getUserState choosing_world 1001 = Some (''choose_category'', None)
   \<and> handleTelegramUpdate example_env example_now (text_update 1001 ''toString'') choosing_world
     = \<lparr>expenses = [], user_state = [(1001, ''await_amount'', Some ''toString'')],
        outbox = [(1001, EnterAmount ''toString'', None)]\<rparr>"
  by code_simp

text \<open>
  With the inherited name \<open>__proto__\<close> an expense of that category reaches the storage.
\<close>

lemma proto_expense_reachable:
  "map category (expenses (run [(example_env, example_now, text_update 1001 ''/add''),
                                (example_env, example_now, text_update 1001 ''__proto__''),
                                (example_env, example_now, text_update 1001 ''5'')] empty_world))
   = [''__proto__'']"
  by code_simp

section \<open>Entering an amount\<close>

lemma conversation_finite_amount:
  assumes "getUserState w u = Some (''await_amount'', Some cat)" and "cat \<noteq> []"
    and "js_Number txt = Finite a"
  shows "conversation now txt c u w
     = sendMessage c (Recorded a cat) None (clearUserState u (insertExpense now u cat a w))"
  using assms by (simp add: conversation_def)

lemma conversation_not_finite:
  assumes "getUserState w u = Some (''await_amount'', Some cat)" and "cat \<noteq> []"
    and "\<not> Number_isFinite (js_Number txt)"
  shows "conversation now txt c u w = sendMessage c EnterValidNumber None w"
  using assms by (cases "js_Number txt") (simp_all add: conversation_def)

text \<open>
  Claim C3 at a message without text. The sender is awaiting an amount for \<open>Meals\<close> and
  sends a sticker: the text is empty, \<open>Number("")\<close> is 0, which is finite, and an
  expense of amount 0 is written and the state reset. (The two lemmas before this one
  give the behaviour for a text that \<open>Number\<close> reads as finite, and as not finite.)
\<close>

theorem empty_text_recorded_as_zero:
  "getUserState awaiting_world 1001 = Some (''await_amount'', Some ''Meals'')
   \<and> js_Number [] = Finite 0
   \<and> handleTelegramUpdate example_env example_now (sticker_update 1001) awaiting_world
     = \<lparr>expenses = [\<lparr>ts_utc = ''2025-03-14T16:30:00.000Z'', ts_sg_date = ''2025-03-15'',
                      ts_sg_month = ''2025-03'', user_id = 1001, category = ''Meals'', amount = 0\<rparr>],
        user_state = [], outbox = [(1001, Recorded 0 ''Meals'', None)]\<rparr>"
  by code_simp

section \<open>The explicit date of the daily summary\<close>

text \<open>
  Claim C2, as amended. An explicit, non-empty date string is rejected (status 400,
  \<open>InvalidDate\<close>, the same answer for every content of the storage) exactly when it does
  not have the form of four digits, a hyphen, two digits, a hyphen and two digits; a string
  of that form is accepted and summarised as it is.
\<close>

theorem explicit_date_check:
  assumes "s \<noteq> []"
  shows "apiDailySummary w now (Some s)
       = (if matches_date_pattern s
          then Response 200
                 (Inr \<lparr>date = s, timezone = SG_TIMEZONE,
                       budget_daily = dailyBudgetForSgDateString s,
                       spent_daily = fst (sumForDate w s DAILY_CATEGORIES),
                       remaining_daily = dailyBudgetForSgDateString s
                                          - fst (sumForDate w s DAILY_CATEGORIES),
                       by_category = snd (sumForDate w s DAILY_CATEGORIES)\<rparr>)
          else Response 400 (Inl InvalidDate))
     \<and> getDailySummaryData w now (Some s)
       = (if matches_date_pattern s
          then Inr \<lparr>date = s, timezone = SG_TIMEZONE,
                    budget_daily = dailyBudgetForSgDateString s,
                    spent_daily = fst (sumForDate w s DAILY_CATEGORIES),
                    remaining_daily = dailyBudgetForSgDateString s
                                       - fst (sumForDate w s DAILY_CATEGORIES),
                    by_category = snd (sumForDate w s DAILY_CATEGORIES)\<rparr>
          else Inl InvalidDate)"
  using assms
  by (simp add: apiDailySummary_def getDailySummaryData_def normalizeSgDateString_def Let_def)

theorem explicit_date_check_witness:
  "apiDailySummary march_world example_now (Some ''15/03/2025'') = Response 400 (Inl InvalidDate)
   \<and> getDailySummaryData march_world example_now (Some ''2025-3-15'') = Inl InvalidDate"
proof -
  have a: "''15/03/2025'' \<noteq> []" and b: "''2025-3-15'' \<noteq> []"
    by simp_all
  have c: "\<not> matches_date_pattern ''15/03/2025''" "\<not> matches_date_pattern ''2025-3-15''"
    by (simp_all add: matches_date_pattern_def is_digit_def)
  show ?thesis
    using explicit_date_check [OF a, of march_world example_now]
      explicit_date_check [OF b, of march_world example_now] c
    by simp
qed

text \<open>
  The claim as it stands fails: 30 February 2025 is no calendar date, and the string is
  accepted (the Date rolls it over to 2 March, a Sunday); an explicit empty string is
  accepted too, as a request for today.
\<close>

theorem impossible_date_accepted:
  "\<not> valid_calendar_date ''2025-02-30''
   \<and> apiDailySummary empty_world example_now (Some ''2025-02-30'')
     = Response 200
         (Inr \<lparr>date = ''2025-02-30'', timezone = ''Asia/Singapore'', budget_daily = 80,
               spent_daily = 0, remaining_daily = 80, by_category = []\<rparr>)
   \<and> \<not> valid_calendar_date []
   \<and> apiDailySummary empty_world example_now (Some [])
     = Response 200
         (Inr \<lparr>date = ''2025-03-15'', timezone = ''Asia/Singapore'', budget_daily = 80,
               spent_daily = 0, remaining_daily = 80, by_category = []\<rparr>)"
  by code_simp

text \<open>An empty date string is answered as an absent one, on every storage and clock.\<close>

lemma empty_date_means_today:
  "apiDailySummary w now (Some []) = apiDailySummary w now None
   \<and> getDailySummaryData w now (Some []) = getDailySummaryData w now None"
  by (simp add: apiDailySummary_def getDailySummaryData_def)

section \<open>The Date functions and the calendar\<close>

text \<open>Stepping a quotient by one: the arithmetic behind the leap-year rule.\<close>

lemma div_succ:
  fixes a n :: int
  assumes "0 < n"
  shows "(a + 1) div n = a div n + (if (a + 1) mod n = 0 then 1 else 0)"
proof -
  define q r where "q = a div n" and "r = a mod n"
  have a: "a = n * q + r" and r: "0 \<le> r" "r < n"
    using assms by (simp_all add: q_def r_def)
  show ?thesis
  proof (cases "r = n - 1")
    case True
    then have e: "a + 1 = n * (q + 1) + 0"
      by (simp add: a algebra_simps)
    have "(a + 1) div n = q + 1" "(a + 1) mod n = 0"
      using int_div_pos_eq [OF e] int_mod_pos_eq [OF e] assms by simp_all
    then show ?thesis by (simp add: q_def)
  next
    case False
    then have e: "a + 1 = n * q + (r + 1)" and b: "0 \<le> r + 1" "r + 1 < n"
      using r by (simp_all add: a)
    have "(a + 1) div n = q" "(a + 1) mod n = r + 1"
      using int_div_pos_eq [OF e b] int_mod_pos_eq [OF e b] by simp_all
    then show ?thesis using r by (simp add: q_def)
  qed
qed

lemma mod_shift: "(y - n * k) mod n = y mod n" for y n k :: int
proof -
  have "(y - n * k) mod n = (y + n * (- k)) mod n" by simp
  also have "\<dots> = y mod n" by (rule mod_mult_self2)
  finally show ?thesis .
qed

lemma div_step:
  fixes y n k :: int
  assumes "0 < n" and "c = n * k + 1"
  shows "(y + 1 - c) div n = (y - c) div n + (if y mod n = 0 then 1 else 0)"
proof -
  have m: "(y - c + 1) mod n = y mod n"
    using mod_shift [of y n k] by (simp add: assms(2))
  have "y + 1 - c = y - c + 1" by simp
  then show ?thesis
    using div_succ [OF assms(1), of "y - c"] by (simp only: m)
qed

lemma step4: "(y + 1 - 1969) div 4 = (y - 1969) div 4 + (if y mod 4 = 0 then 1 else 0)" for y :: int
  by (rule div_step [where k = 492]) simp_all

lemma step100: "(y + 1 - 1901) div 100 = (y - 1901) div 100 + (if y mod 100 = 0 then 1 else 0)" for y :: int
  by (rule div_step [where k = 19]) simp_all

lemma step400: "(y + 1 - 1601) div 400 = (y - 1601) div 400 + (if y mod 400 = 0 then 1 else 0)" for y :: int
  by (rule div_step [where k = 4]) simp_all

lemma mod100_4: "y mod 100 = 0 \<Longrightarrow> y mod 4 = 0" for y :: int
proof -
  assume "y mod 100 = 0"
  then have "100 dvd y" by (simp add: mod_eq_0_iff_dvd)
  moreover have "(4::int) dvd 100" by simp
  ultimately have "4 dvd y" by (rule dvd_trans [rotated])
  then show ?thesis by (simp add: mod_eq_0_iff_dvd)
qed

lemma mod400_100: "y mod 400 = 0 \<Longrightarrow> y mod 100 = 0" for y :: int
proof -
  assume "y mod 400 = 0"
  then have "400 dvd y" by (simp add: mod_eq_0_iff_dvd)
  moreover have "(100::int) dvd 400" by simp
  ultimately have "100 dvd y" by (rule dvd_trans [rotated])
  then show ?thesis by (simp add: mod_eq_0_iff_dvd)
qed


subsection \<open>Years\<close>

lemma DaysInYear_cases: "DaysInYear y = 365 \<or> DaysInYear y = 366"
  by (simp add: DaysInYear_def)

lemma DayFromYear_step: "DayFromYear (y + 1) = DayFromYear y + DaysInYear y"
proof -
  define A B C where "A = (y - 1969) div 4" and "B = (y - 1901) div 100"
    and "C = (y - 1601) div 400"
  have l: "DayFromYear y = 365 * (y - 1970) + A - B + C"
    by (simp add: DayFromYear_def A_def B_def C_def)
  have r: "DayFromYear (y + 1) = 365 * (y + 1 - 1970)
      + (A + (if y mod 4 = 0 then 1 else 0))
      - (B + (if y mod 100 = 0 then 1 else 0))
      + (C + (if y mod 400 = 0 then 1 else 0))"
    unfolding DayFromYear_def step4 step100 step400 A_def B_def C_def ..
  show ?thesis
    unfolding l r DaysInYear_def
    using mod100_4 [of y] mod400_100 [of y]
    by (cases "y mod 4 = 0"; cases "y mod 100 = 0"; cases "y mod 400 = 0") simp_all
qed

lemma DayFromYear_pred: "DayFromYear (y - 1) = DayFromYear y - DaysInYear (y - 1)"
  using DayFromYear_step [of "y - 1"] by simp

lemma DayFromYear_1970: "DayFromYear 1970 = 0"
  by (simp add: DayFromYear_def)

lemma DayFromYear_mono_aux: "0 \<le> k \<Longrightarrow> DayFromYear y + 365 * k \<le> DayFromYear (y + k)
    \<and> DayFromYear (y + k) \<le> DayFromYear y + 366 * k"
proof (induction k rule: int_ge_induct)
  case base
  then show ?case by simp
next
  case (step i)
  have "DayFromYear (y + (i + 1)) = DayFromYear (y + i) + DaysInYear (y + i)"
    using DayFromYear_step [of "y + i"] by (simp add: add.assoc)
  then show ?case
    using step.IH DaysInYear_cases [of "y + i"] by auto
qed

lemma DayFromYear_le: "a \<le> b \<Longrightarrow> DayFromYear a + 365 * (b - a) \<le> DayFromYear b"
  using DayFromYear_mono_aux [of "b - a" a] by simp

lemma DayFromYear_ge: "a \<le> b \<Longrightarrow> DayFromYear b \<le> DayFromYear a + 366 * (b - a)"
  using DayFromYear_mono_aux [of "b - a" a] by simp

lemma DayFromYear_mono: "a \<le> b \<Longrightarrow> DayFromYear a \<le> DayFromYear b"
  using DayFromYear_le [of a b] by simp

lemma DayFromYear_strict: "a < b \<Longrightarrow> DayFromYear a < DayFromYear b"
  using DayFromYear_le [of a b] by simp


lemma div_lower: "n * k \<le> d \<Longrightarrow> 0 < n \<Longrightarrow> k \<le> d div n" for d n k :: int
  using zdiv_mono1 [of "n * k" d n] by simp

lemma div_upper:
  fixes d n k :: int
  assumes "d < n * k" and "0 < n"
  shows "d div n < k"
proof (rule ccontr)
  assume "\<not> d div n < k"
  then have "n * k \<le> n * (d div n)"
    using assms(2) by (simp add: mult_left_mono)
  moreover have "n * (d div n) \<le> d"
    using mult_div_mod_eq [of n d] pos_mod_sign [OF assms(2), of d] by linarith
  ultimately show False
    using assms(1) by linarith
qed

text \<open>The window of \<open>YearFromDay\<close> holds the year of the day.\<close>

lemma year_window:
  assumes "DayFromYear y \<le> d" and "d < DayFromYear (y + 1)"
  shows "1970 + min (d div 366) (d div 365) - 1 \<le> y"
    and "y \<le> 1970 + max (d div 366) (d div 365) + 1"
proof -
  have "min (d div 366) (d div 365) \<le> y - 1970 \<and> y - 1970 \<le> max (d div 366) (d div 365)"
  proof (cases "1970 \<le> y")
    case True
    have "365 * (y - 1970) \<le> d"
      using DayFromYear_le [OF True] assms(1) by (simp add: DayFromYear_1970)
    then have a: "y - 1970 \<le> d div 365"
      by (rule div_lower) simp
    have "d < 366 * (y + 1 - 1970)"
      using DayFromYear_ge [of 1970 "y + 1"] True assms(2) by (simp add: DayFromYear_1970)
    then have "d div 366 < y + 1 - 1970"
      by (rule div_upper) simp
    then show ?thesis using a by simp
  next
    case False
    then have le: "y + 1 \<le> 1970" "y \<le> 1970" by simp_all
    have "366 * (y - 1970) \<le> d"
      using DayFromYear_ge [OF le(2)] assms(1) by (simp add: DayFromYear_1970)
    then have a: "y - 1970 \<le> d div 366"
      by (rule div_lower) simp
    have "d < 365 * (y + 1 - 1970)"
      using DayFromYear_le [OF le(1)] assms(2) by (simp add: DayFromYear_1970)
    then have "d div 365 < y + 1 - 1970"
      by (rule div_upper) simp
    then show ?thesis using a by simp
  qed
  then show "1970 + min (d div 366) (d div 365) - 1 \<le> y"
    and "y \<le> 1970 + max (d div 366) (d div 365) + 1"
    by simp_all
qed

lemma last_filter_upto:
  fixes lo y hi :: int
  assumes "lo \<le> y" and "y \<le> hi" and "\<And>x. P x \<longleftrightarrow> x \<le> y"
  shows "last (filter P [lo..hi]) = y"
proof -
  have s: "[lo..hi] = [lo..y] @ [y + 1..hi]"
    using assms(1,2) by (rule upto_split2)
  have "filter P [lo..y] = [lo..y]" "filter P [y + 1..hi] = []"
    by (simp_all add: assms(3))
  then have "filter P [lo..hi] = [lo..y]"
    by (simp add: s)
  also have "\<dots> = [lo..y - 1] @ [y]"
    using assms(1) by (rule upto_rec2)
  finally show ?thesis by simp
qed

lemma YearFromDay_eq:
  assumes "DayFromYear y \<le> d" and "d < DayFromYear (y + 1)"
  shows "YearFromDay d = y"
proof -
  have p: "DayFromYear x \<le> d \<longleftrightarrow> x \<le> y" for x
  proof
    assume "DayFromYear x \<le> d"
    show "x \<le> y"
    proof (rule ccontr)
      assume "\<not> x \<le> y"
      then have "DayFromYear (y + 1) \<le> DayFromYear x"
        by (intro DayFromYear_mono) simp
      then show False
        using \<open>DayFromYear x \<le> d\<close> assms(2) by simp
    qed
  next
    assume "x \<le> y"
    then show "DayFromYear x \<le> d"
      using DayFromYear_mono [of x y] assms(1) by simp
  qed
  show ?thesis
    unfolding YearFromDay_def Let_def
    by (rule last_filter_upto [OF year_window [OF assms] p])
qed


subsection \<open>Months and days\<close>

lemma month_cases:
  fixes mn :: int
  assumes "0 \<le> mn" and "mn \<le> 11"
  shows "mn = 0 \<or> mn = 1 \<or> mn = 2 \<or> mn = 3 \<or> mn = 4 \<or> mn = 5 \<or> mn = 6 \<or> mn = 7
       \<or> mn = 8 \<or> mn = 9 \<or> mn = 10 \<or> mn = 11"
  using assms by arith

lemma MakeDay_month: "0 \<le> mn \<Longrightarrow> mn \<le> 11 \<Longrightarrow>
    MakeDay yr mn dt = DayFromYear yr + month_start yr mn + dt - 1"
  by (simp add: MakeDay_def Let_def)

lemma month_start_next:
  assumes "0 \<le> mn" and "mn \<le> 11"
  shows "month_start yr mn + days_in_month yr (mn + 1)
       = (if mn = 11 then DaysInYear yr else month_start yr (mn + 1))"
  using month_cases [OF assms] DaysInYear_cases [of yr]
  by (auto simp: month_start_def days_in_month_def)

lemma month_start_nonneg: "0 \<le> mn \<Longrightarrow> mn \<le> 11 \<Longrightarrow> 0 \<le> month_start yr mn"
  by (simp add: month_start_def Let_def)

lemma month_start_bound:
  assumes "0 \<le> mn" and "mn \<le> 11"
  shows "month_start yr mn + days_in_month yr (mn + 1) \<le> DaysInYear yr"
  using month_cases [OF assms] DaysInYear_cases [of yr]
  by (auto simp: month_start_def days_in_month_def)

lemma valid_day_in_year:
  assumes "0 \<le> mn" and "mn \<le> 11" and "1 \<le> dt" and "dt \<le> days_in_month yr (mn + 1)"
  shows "YearFromDay (MakeDay yr mn dt) = yr"
proof (rule YearFromDay_eq)
  show "DayFromYear yr \<le> MakeDay yr mn dt"
    using assms month_start_nonneg [OF assms(1,2), of yr] by (simp add: MakeDay_month)
  show "MakeDay yr mn dt < DayFromYear (yr + 1)"
    using assms month_start_bound [OF assms(1,2), of yr]
    by (simp add: MakeDay_month DayFromYear_step)
qed

lemma month_start_values:
  "month_start yr 0 = 0" "month_start yr 1 = 31"
  "month_start yr 2 = 59 + (if DaysInYear yr = 366 then 1 else 0)"
  "month_start yr 3 = 90 + (if DaysInYear yr = 366 then 1 else 0)"
  "month_start yr 4 = 120 + (if DaysInYear yr = 366 then 1 else 0)"
  "month_start yr 5 = 151 + (if DaysInYear yr = 366 then 1 else 0)"
  "month_start yr 6 = 181 + (if DaysInYear yr = 366 then 1 else 0)"
  "month_start yr 7 = 212 + (if DaysInYear yr = 366 then 1 else 0)"
  "month_start yr 8 = 243 + (if DaysInYear yr = 366 then 1 else 0)"
  "month_start yr 9 = 273 + (if DaysInYear yr = 366 then 1 else 0)"
  "month_start yr 10 = 304 + (if DaysInYear yr = 366 then 1 else 0)"
  "month_start yr 11 = 334 + (if DaysInYear yr = 366 then 1 else 0)"
  by (simp_all add: month_start_def)

lemma days_in_month_values:
  "days_in_month yr 1 = 31" "days_in_month yr 2 = 28 + (if DaysInYear yr = 366 then 1 else 0)"
  "days_in_month yr 3 = 31" "days_in_month yr 4 = 30" "days_in_month yr 5 = 31"
  "days_in_month yr 6 = 30" "days_in_month yr 7 = 31" "days_in_month yr 8 = 31"
  "days_in_month yr 9 = 30" "days_in_month yr 10 = 31" "days_in_month yr 11 = 30"
  "days_in_month yr 12 = 31"
  by (simp_all add: days_in_month_def)

lemma valid_day_fields:
  assumes "0 \<le> mn" and "mn \<le> 11" and "1 \<le> dt" and "dt \<le> days_in_month yr (mn + 1)"
  shows "MonthFromDay (MakeDay yr mn dt) = mn" and "DateFromDay (MakeDay yr mn dt) = dt"
proof -
  define l :: int where "l = (if DaysInYear yr = 366 then 1 else 0)"
  have l01: "0 \<le> l" "l \<le> 1"
    by (simp_all add: l_def)
  have y: "YearFromDay (MakeDay yr mn dt) = yr"
    using assms by (rule valid_day_in_year)
  have w: "DayWithinYear (MakeDay yr mn dt) = month_start yr mn + dt - 1"
    unfolding DayWithinYear_def y by (simp add: MakeDay_month assms(1,2))
  have il: "InLeapYear (MakeDay yr mn dt) = l"
    by (simp add: InLeapYear_def y l_def)
  note vals = month_start_values [of yr, folded l_def] days_in_month_values [of yr, folded l_def]
  show m: "MonthFromDay (MakeDay yr mn dt) = mn"
    unfolding MonthFromDay_def w il Let_def
    using month_cases [OF assms(1,2)] assms(3,4) l01
    by (elim disjE) (simp_all add: vals)
  show "DateFromDay (MakeDay yr mn dt) = dt"
    unfolding DateFromDay_def w il m Let_def
    using month_cases [OF assms(1,2)]
    by (elim disjE) (simp_all add: vals)
qed


text \<open>Day 0 of the next month is the last day of the month.\<close>

lemma last_day_of_month:
  assumes "1 \<le> m" and "m \<le> 12"
  shows "MakeDay yr m 0 = MakeDay yr (m - 1) (days_in_month yr m)"
proof (cases "m = 12")
  case True
  have "MakeDay yr 12 0 = DayFromYear (yr + 1) - 1"
    by (simp add: MakeDay_def month_start_def)
  also have "\<dots> = DayFromYear yr + DaysInYear yr - 1"
    by (simp add: DayFromYear_step)
  also have "\<dots> = MakeDay yr 11 31"
    using DaysInYear_cases [of yr] by (auto simp: MakeDay_month month_start_values)
  finally show ?thesis
    by (simp add: True days_in_month_values)
next
  case False
  then have b: "0 \<le> m - 1" "m - 1 \<le> 11" "0 \<le> m" "m \<le> 11"
    using assms by simp_all
  show ?thesis
    using month_start_next [OF b(1,2), of yr] False
    by (simp add: MakeDay_month [OF b(1,2)] MakeDay_month [OF b(3,4)])
qed

lemma days_in_month_pos: "1 \<le> m \<Longrightarrow> m \<le> 12 \<Longrightarrow> 1 \<le> days_in_month yr m"
  by (simp add: days_in_month_def)

lemma getDate_day0:
  assumes "1 \<le> m" and "m \<le> 12"
  shows "DateFromDay (MakeDay yr m 0) = days_in_month yr m"
  unfolding last_day_of_month [OF assms]
  using assms days_in_month_pos [OF assms, of yr]
  by (intro valid_day_fields(2)) simp_all

lemma DayFromYear_min: "DayFromYear (- 271820) = - 99999744"
  by (simp add: DayFromYear_def)

lemma DayFromYear_max: "DayFromYear 275760 = 99999744"
  by (simp add: DayFromYear_def)

text \<open>The days of the years from -271820 to 275759 are within the range of time values.\<close>

lemma TimeClip_valid_day:
  assumes "- 271820 \<le> yr" and "yr \<le> 275759"
    and "0 \<le> mn" and "mn \<le> 11" and "1 \<le> dt" and "dt \<le> days_in_month yr (mn + 1)"
  shows "TimeClip (MakeDay yr mn dt) = Some (MakeDay yr mn dt)"
proof -
  have "DayFromYear yr \<le> MakeDay yr mn dt"
    using assms month_start_nonneg [OF assms(3,4), of yr] by (simp add: MakeDay_month)
  moreover have "MakeDay yr mn dt < DayFromYear (yr + 1)"
    using assms month_start_bound [OF assms(3,4), of yr]
    by (simp add: MakeDay_month DayFromYear_step)
  moreover have "DayFromYear (- 271820) \<le> DayFromYear yr"
    using assms(1) by (rule DayFromYear_mono)
  moreover have "DayFromYear (yr + 1) \<le> DayFromYear 275760"
    using assms(2) by (intro DayFromYear_mono) simp
  ultimately show ?thesis
    by (simp add: TimeClip_def DayFromYear_min DayFromYear_max)
qed

lemma ToIntegerOrInfinity_num [simp]: "ToIntegerOrInfinity (num i) = Some i"
  by (simp add: num_def js_truncate_def)

lemma js_pred_num:
  assumes "\<bar>i\<bar> < 2 ^ 52"
  shows "js_pred (num i) = num (i - 1)"
proof -
  have "round_to_double (of_int (i - 1)) = Finite (of_int (i - 1))"
    using assms by (intro round_to_double_int) simp
  then show ?thesis
    by (simp add: num_def js_pred_def js_sub_def)
qed

lemma Date_UTC_num: "Date_UTC (num y) (num m) (num d) = TimeClip (MakeDay (MakeFullYear y) m d)"
  by (simp add: Date_UTC_def)

lemma MakeFullYear_range:
  "- 271820 \<le> y \<Longrightarrow> y \<le> 275759 \<Longrightarrow> - 271820 \<le> MakeFullYear y \<and> MakeFullYear y \<le> 275759"
  by (simp add: MakeFullYear_def)

lemma daysInMonth_computed:
  assumes "- 271820 \<le> y" and "y \<le> 275759" and "1 \<le> m" and "m \<le> 12"
  shows "getDate (new_Date (num y) (num m) (num 0)) = Some (days_in_month (MakeFullYear y) m)"
proof -
  have r: "- 271820 \<le> MakeFullYear y" "MakeFullYear y \<le> 275759"
    using MakeFullYear_range [OF assms(1,2)] by simp_all
  have "TimeClip (MakeDay (MakeFullYear y) m 0) = Some (MakeDay (MakeFullYear y) m 0)"
    unfolding last_day_of_month [OF assms(3,4)]
    using assms(3,4) days_in_month_pos [OF assms(3,4)]
    by (intro TimeClip_valid_day r) simp_all
  then show ?thesis
    by (simp add: getDate_def new_Date_def Date_UTC_num getDate_day0 [OF assms(3,4)])
qed

subsection \<open>Counting weekdays and weekends\<close>

lemma count_day_total:
  "fst (count_day y m d acc) + snd (count_day y m d acc) = fst acc + snd acc + 1"
  by (simp add: count_day_def Let_def)

lemma fold_count_day_total:
  "fst (fold (count_day y m) ds acc) + snd (fold (count_day y m) ds acc)
   = fst acc + snd acc + length ds"
  by (induction ds arbitrary: acc) (simp_all add: count_day_total)

lemma DaysInYear_two_digit: "1 \<le> y \<Longrightarrow> y \<le> 99 \<Longrightarrow> DaysInYear (1900 + y) = DaysInYear y"
proof -
  assume a: "1 \<le> y" "y \<le> 99"
  have 4: "(1900 + y) mod 4 = y mod 4"
    using mod_mult_self2 [of y 4 475] by (simp add: add.commute)
  have 100: "(1900 + y) mod 100 = y mod 100"
    using mod_mult_self2 [of y 100 19] by (simp add: add.commute)
  have "y mod 100 = y"
    using a by simp
  then have "y mod 100 \<noteq> 0"
    using a by simp
  then show ?thesis
    by (simp add: DaysInYear_def 4 100)
qed

lemma days_in_month_MakeFullYear:
  assumes "\<not> (y = 0 \<and> m = 2)"
  shows "days_in_month (MakeFullYear y) m = days_in_month y m"
proof (cases "1 \<le> y \<and> y \<le> 99")
  case True
  then show ?thesis
    by (simp add: MakeFullYear_def days_in_month_def DaysInYear_two_digit)
next
  case False
  then show ?thesis
    using assms by (auto simp: MakeFullYear_def days_in_month_def)
qed

text \<open>
  Where the code counts a month correctly. For every year from -271820 to 275759 and every
  month from 1 to 12, February of the year 0 apart, \<open>daysInMonth\<close> is the number of days
  of that month in the calendar (leap years included), the loop runs over the days 1 to
  \<open>daysInMonth\<close>, and the two counts add up to that number.
\<close>

lemma counts_cover_the_month:
  assumes "- 271820 \<le> y" and "y \<le> 275759" and "1 \<le> m" and "m \<le> 12"
    and "\<not> (y = 0 \<and> m = 2)"
  shows "getDate (new_Date (num y) (num m) (num 0)) = Some (days_in_month y m)
     \<and> countWeekdaysWeekends y m = fold (count_day y m) [1..days_in_month y m] (0, 0)
     \<and> int (fst (countWeekdaysWeekends y m)) + int (snd (countWeekdaysWeekends y m))
         = days_in_month y m"
proof -
  have g: "getDate (new_Date (num y) (num m) (num 0)) = Some (days_in_month y m)"
    using daysInMonth_computed [OF assms(1-4)] days_in_month_MakeFullYear [OF assms(5)] by simp
  have c: "countWeekdaysWeekends y m = fold (count_day y m) [1..days_in_month y m] (0, 0)"
    by (simp add: countWeekdaysWeekends_def g)
  have "fst (countWeekdaysWeekends y m) + snd (countWeekdaysWeekends y m)
      = nat (days_in_month y m)"
    unfolding c fold_count_day_total by simp
  then have "int (fst (countWeekdaysWeekends y m)) + int (snd (countWeekdaysWeekends y m))
      = int (nat (days_in_month y m))"
    by (metis of_nat_add)
  then show ?thesis
    using g c days_in_month_pos [OF assms(3,4), of y] by simp
qed


lemma counts_of_february_2024:
  "days_in_month 2024 2 = 29
   \<and> getDate (new_Date (num 2024) (num 2) (num 0)) = Some 29
   \<and> int (fst (countWeekdaysWeekends 2024 2)) + int (snd (countWeekdaysWeekends 2024 2)) = 29"
proof -
  have d: "days_in_month 2024 2 = 29"
    by (simp add: days_in_month_def DaysInYear_def)
  have h: "- 271820 \<le> (2024::int)" "(2024::int) \<le> 275759" "1 \<le> (2::int)" "(2::int) \<le> 12"
    "\<not> ((2024::int) = 0 \<and> (2::int) = 2)"
    by simp_all
  show ?thesis
    using counts_cover_the_month [OF h] d unfolding d by blast
qed

text \<open>
  Claim C6 at February of the year 0. The year 0 is a leap year of the calendar, so its
  February has 29 days. \<open>new Date(0, 2, 0)\<close> reads the year 0 as 1900, which is not a leap
  year: \<open>daysInMonth\<close> is 28, the loop runs over 28 days, and the counts 20 and 8 returned
  by the monthly summary for \<open>year=0&month=2\<close> add up to 28, one day short of the month.
\<close>

theorem february_of_year_zero:
  "days_in_month 0 2 = 29
   \<and> getDate (new_Date (num 0) (num 2) (num 0)) = Some 28
   \<and> countWeekdaysWeekends 0 2 = (20, 8)
   \<and> map_sum id (\<lambda>s. (weekdays s, weekends s))
         (getMonthlySummaryData empty_world example_now (Some 0) (Some 2)) = Inr (20, 8)"
  by code_simp

text \<open>
  A year beyond the range of Date (about 275760 years either side of 1970) gives an invalid
  Date: \<open>daysInMonth\<close> is NaN, the loop does not run and nothing is counted.
\<close>

lemma year_beyond_date_range:
  "countWeekdaysWeekends 300000 1 = (0, 0) \<and> days_in_month 300000 1 = 31"
  by code_simp

subsection \<open>The reference calendar and the Date functions\<close>

lemma days_before_year_ge: "1970 \<le> y \<Longrightarrow> sum_list (map DaysInYear [1970..y - 1]) = DayFromYear y"
proof (induction y rule: int_ge_induct)
  case base
  then show ?case by (simp add: DayFromYear_1970)
next
  case (step i)
  have "[1970..i + 1 - 1] = [1970..i - 1] @ [i]"
    using step.hyps upto_rec2 [of 1970 i] by simp
  then show ?case
    using step.IH by (simp add: DayFromYear_step)
qed

lemma days_before_year_le: "y \<le> 1969 \<Longrightarrow> - sum_list (map DaysInYear [y..1969]) = DayFromYear y"
proof (induction y rule: int_le_induct)
  case base
  then show ?case by (simp add: DayFromYear_def DaysInYear_def)
next
  case (step i)
  have "[i - 1..1969] = (i - 1) # [i..1969]"
    using step.hyps upto_rec1 [of "i - 1" 1969] by simp
  then show ?case
    using step.IH by (simp add: DayFromYear_pred)
qed

lemma days_before_year_eq: "days_before_year y = DayFromYear y"
  by (simp add: days_before_year_def days_before_year_ge days_before_year_le)

lemma upto_months: "[1..11] = [1, 2, 3, 4, 5, 6, 7, 8, 9, 10, 11 :: int]"
  by (simp add: upto_rec1)

lemma upto_take: "0 \<le> k \<Longrightarrow> k \<le> 11 \<Longrightarrow> [1..k] = take (nat k) [1..11]" for k :: int
proof -
  assume a: "0 \<le> k" "k \<le> 11"
  have "[1..11] = [1..k] @ [k + 1..11]"
    using a upto_split2 [of 1 k 11] by (cases "k = 0") simp_all
  then show ?thesis
    using a by simp
qed

lemma days_before_month_eq:
  assumes "1 \<le> m" and "m \<le> 12"
  shows "days_before_month y m = month_start y (m - 1)"
proof -
  have "m - 1 = 0 \<or> m - 1 = 1 \<or> m - 1 = 2 \<or> m - 1 = 3 \<or> m - 1 = 4 \<or> m - 1 = 5
      \<or> m - 1 = 6 \<or> m - 1 = 7 \<or> m - 1 = 8 \<or> m - 1 = 9 \<or> m - 1 = 10 \<or> m - 1 = 11"
    using assms by (intro month_cases) simp_all
  then show ?thesis
    unfolding days_before_month_def
    by (elim disjE) (simp_all add: upto_take upto_months month_start_values days_in_month_values)
qed

lemma day_number_eq:
  assumes "1 \<le> m" and "m \<le> 12"
  shows "day_number y m d = MakeDay y (m - 1) d"
  using assms
  by (simp add: day_number_def days_before_year_eq days_before_month_eq MakeDay_month)


subsection \<open>Reading the fields of a date string\<close>

lemma is_digit_cases:
  "is_digit c \<Longrightarrow> c = CHR ''0'' \<or> c = CHR ''1'' \<or> c = CHR ''2'' \<or> c = CHR ''3'' \<or> c = CHR ''4''
     \<or> c = CHR ''5'' \<or> c = CHR ''6'' \<or> c = CHR ''7'' \<or> c = CHR ''8'' \<or> c = CHR ''9''"
  by (simp add: is_digit_def)

lemma digit_not_space: "is_digit c \<Longrightarrow> \<not> is_js_space c"
  by (drule is_digit_cases) (elim disjE; simp add: is_js_space_def)

lemma digit_not_sign:
  "is_digit c \<Longrightarrow> c \<noteq> CHR ''-'' \<and> c \<noteq> CHR ''+'' \<and> c \<noteq> CHR ''I''"
  by (drule is_digit_cases) (elim disjE; simp)

lemma digit_not_prefix:
  "is_digit c \<Longrightarrow> c \<noteq> CHR ''x'' \<and> c \<noteq> CHR ''X'' \<and> c \<noteq> CHR ''o'' \<and> c \<noteq> CHR ''O''
     \<and> c \<noteq> CHR ''b'' \<and> c \<noteq> CHR ''B''"
  by (drule is_digit_cases) (elim disjE; simp)

lemma digit_value_range: "is_digit c \<Longrightarrow> 0 \<le> digit_value c \<and> digit_value c \<le> 9"
  by (drule is_digit_cases) (elim disjE; simp add: digit_value_def)

lemma digits_value_snoc: "digits_value b (ds @ [c]) = b * digits_value b ds + digit_value c"
  by (simp add: digits_value_def)

lemma digits_value_bounds:
  "list_all is_digit ds \<Longrightarrow> 0 \<le> digits_value 10 ds \<and> digits_value 10 ds < 10 ^ length ds"
proof (induction ds rule: rev_induct)
  case Nil
  then show ?case by (simp add: digits_value_def)
next
  case (snoc c ds)
  then have "is_digit c" and "list_all is_digit ds" by simp_all
  then show ?case
    using snoc.IH digit_value_range [of c] by (simp add: digits_value_snoc)
qed

lemma dropWhile_unchanged: "xs \<noteq> [] \<Longrightarrow> \<not> P (hd xs) \<Longrightarrow> dropWhile P xs = xs"
  by (cases xs) simp_all

lemma js_trim_digits:
  assumes "list_all is_digit ds"
  shows "js_trim ds = ds"
proof (cases "ds = []")
  case True
  then show ?thesis by (simp add: js_trim_def)
next
  case False
  then have "is_digit (hd ds)" "is_digit (last ds)"
    using assms by (simp_all add: list_all_iff)
  then have h: "\<not> is_js_space (hd ds)" "\<not> is_js_space (hd (rev ds))"
    using False by (simp_all add: digit_not_space hd_rev)
  show ?thesis
    using False by (simp add: js_trim_def dropWhile_unchanged h)
qed

lemma js_Number_digits:
  assumes "list_all is_digit ds" and "ds \<noteq> []" and "length ds \<le> 4"
  shows "js_Number ds = num (digits_value 10 ds)"
proof -
  obtain c r where ds: "ds = c # r"
    using assms(2) by (cases ds) auto
  have c: "is_digit c" and r: "list_all is_digit r"
    using assms(1) by (simp_all add: ds)
  have nd: "NonDecimalIntegerLiteral ds = None"
  proof (cases r)
    case Nil
    then show ?thesis by (simp add: NonDecimalIntegerLiteral_def ds)
  next
    case (Cons p t)
    then have "is_digit p" using r by simp
    then show ?thesis
      using digit_not_prefix [of p] by (simp add: NonDecimalIntegerLiteral_def ds Cons)
  qed
  have inf: "ds \<noteq> ''Infinity''"
    using digit_not_sign [OF c] by (auto simp: ds)
  have tw: "takeWhile is_digit ds = ds" "dropWhile is_digit ds = []"
    using assms(1) by (simp_all add: list_all_iff)
  have b: "0 \<le> digits_value 10 ds" "digits_value 10 ds < 10 ^ 4"
  proof -
    have "digits_value 10 ds < 10 ^ length ds"
      using digits_value_bounds [OF assms(1)] by simp
    also have "\<dots> \<le> (10::int) ^ 4"
      using assms(3) by (intro power_increasing) simp_all
    finally show "digits_value 10 ds < 10 ^ 4" .
  qed (use digits_value_bounds [OF assms(1)] in simp)
  have rd: "round_to_double (of_int (digits_value 10 ds)) = Finite (of_int (digits_value 10 ds))"
    using b by (intro round_to_double_int) simp
  have un: "StrUnsignedDecimalLiteral ds = Finite (of_int (digits_value 10 ds))"
    using inf assms(2)
    by (simp add: StrUnsignedDecimalLiteral_def tw Let_def ExponentPart_def scale10_def rd)
  have "StrDecimalLiteral ds = StrUnsignedDecimalLiteral ds"
    using digit_not_sign [OF c] by (simp add: StrDecimalLiteral_def ds)
  then show ?thesis
    using assms(2) by (simp add: js_Number_def js_trim_digits [OF assms(1)] nd un num_def)
qed

lemma date_string_parts:
  assumes "matches_date_pattern s"
  shows "\<exists>y m d. date_fields s = (y, m, d)
      \<and> map js_Number (split_on (CHR ''-'') s) = [num y, num m, num d]
      \<and> 0 \<le> y \<and> y \<le> 9999"
proof -
  obtain y1 y2 y3 y4 m1 m2 d1 d2 where
    s: "s = [y1, y2, y3, y4, CHR ''-'', m1, m2, CHR ''-'', d1, d2]"
    and dg: "is_digit y1" "is_digit y2" "is_digit y3" "is_digit y4"
      "is_digit m1" "is_digit m2" "is_digit d1" "is_digit d2"
    using assms by (auto simp: matches_date_pattern_def split: list.splits)
  have sp: "split_on (CHR ''-'') s = [[y1, y2, y3, y4], [m1, m2], [d1, d2]]"
    using dg [THEN digit_not_sign] by (simp add: s)
  have f: "date_fields s
      = (digits_value 10 [y1, y2, y3, y4], digits_value 10 [m1, m2], digits_value 10 [d1, d2])"
    by (simp add: date_fields_def s)
  have n: "js_Number [y1, y2, y3, y4] = num (digits_value 10 [y1, y2, y3, y4])"
    "js_Number [m1, m2] = num (digits_value 10 [m1, m2])"
    "js_Number [d1, d2] = num (digits_value 10 [d1, d2])"
    using dg by (simp_all add: js_Number_digits)
  have "0 \<le> digits_value 10 [y1, y2, y3, y4]" "digits_value 10 [y1, y2, y3, y4] < 10 ^ 4"
    using digits_value_bounds [of "[y1, y2, y3, y4]"] dg by simp_all
  then show ?thesis
    by (simp add: f sp n)
qed


section \<open>The daily budget of a date\<close>

lemma weekday_of_valid_date:
  assumes "valid_date y m d" and "100 \<le> y" and "y \<le> 9999"
  shows "getUTCDay (Date_UTC (num y) (js_pred (num m)) (num d)) = Some (day_of_week y m d)"
proof -
  have v: "1 \<le> m" "m \<le> 12" "1 \<le> d" "d \<le> days_in_month y m"
    using assms(1) by (simp_all add: valid_date_def)
  have f: "MakeFullYear y = y"
    using assms(2) by (simp add: MakeFullYear_def)
  have p: "js_pred (num m) = num (m - 1)"
    using v(1,2) by (intro js_pred_num) simp
  have "TimeClip (MakeDay y (m - 1) d) = Some (MakeDay y (m - 1) d)"
    using v assms(2,3) by (intro TimeClip_valid_day) simp_all
  then show ?thesis
    by (simp add: p Date_UTC_num f getUTCDay_def WeekDay_def day_of_week_def
        day_number_eq [OF v(1,2)])
qed

lemma element_values: "element [a, b, c] 0 = a" "element [a, b, c] 1 = b" "element [a, b, c] 2 = c"
  by (simp_all add: element_def)

text \<open>
  Where the code classifies a date correctly. For every date string of the form
  \<open>YYYY-MM-DD\<close> that writes a calendar date of a year from 0100 on, the daily budget is the
  weekend budget exactly when the day of the week of that date is Saturday or Sunday, and
  the weekday budget otherwise; the daily summary of the date carries that budget. In
  particular 2025-03-15 is a Saturday and has the budget 80.
\<close>

lemma budget_follows_weekday:
  assumes "matches_date_pattern s" and "date_fields s = (y, m, d)" and "valid_date y m d"
    and "100 \<le> y"
  shows "dailyBudgetForSgDateString s
       = (if is_weekend y m d then WEEKEND_DAILY_BUDGET else WEEKDAY_DAILY_BUDGET)
     \<and> (\<exists>r. getDailySummaryData w now (Some s) = Inr r \<and> date r = s
            \<and> budget_daily r = (if is_weekend y m d then 80 else 50))
     \<and> day_of_week 2025 3 15 = 6
     \<and> dailyBudgetForSgDateString ''2025-03-15'' = 80"
proof -
  from date_string_parts [OF assms(1)]
  have p: "map js_Number (split_on (CHR ''-'') s) = [num y, num m, num d]" and r: "y \<le> 9999"
    by (simp_all add: assms(2))
  have b: "dailyBudgetForSgDateString s
      = (if is_weekend y m d then WEEKEND_DAILY_BUDGET else WEEKDAY_DAILY_BUDGET)"
    unfolding dailyBudgetForSgDateString_def p Let_def element_values
      weekday_of_valid_date [OF assms(3,4) r]
    by (auto simp: is_weekend_def)
  have ne: "s \<noteq> []"
    using assms(1) by (auto simp: matches_date_pattern_def)
  have g: "\<exists>r. getDailySummaryData w now (Some s) = Inr r \<and> date r = s
      \<and> budget_daily r = (if is_weekend y m d then 80 else 50)"
    using assms(1) ne
    by (simp add: getDailySummaryData_def normalizeSgDateString_def Let_def b
        WEEKEND_DAILY_BUDGET_def WEEKDAY_DAILY_BUDGET_def)
  have e1: "day_of_week 2025 3 15 = 6"
    by (simp add: day_of_week_def day_number_eq MakeDay_month month_start_values
        DayFromYear_def DaysInYear_def)
  have e2: "dailyBudgetForSgDateString ''2025-03-15'' = 80"
    by code_simp
  show ?thesis
    using b g e1 e2 by simp
qed

lemma budget_of_leap_day_2024:
  "matches_date_pattern ''2024-02-29'' \<and> date_fields ''2024-02-29'' = (2024, 2, 29)
   \<and> valid_date 2024 2 29 \<and> day_of_week 2024 2 29 = 4
   \<and> dailyBudgetForSgDateString ''2024-02-29'' = 50"
proof -
  have a: "matches_date_pattern ''2024-02-29''"
    by (simp add: matches_date_pattern_def is_digit_def)
  have b: "date_fields ''2024-02-29'' = (2024, 2, 29)"
    by (simp add: date_fields_def digits_value_def digit_value_def)
  have c: "valid_date 2024 2 29"
    by (simp add: valid_date_def days_in_month_def DaysInYear_def)
  have d: "day_of_week 2024 2 29 = 4"
    by (simp add: day_of_week_def day_number_eq MakeDay_month month_start_values
        DayFromYear_def DaysInYear_def)
  have e: "\<not> is_weekend 2024 2 29"
    by (simp add: is_weekend_def d)
  show ?thesis
    using budget_follows_weekday [OF a b c] a b c d e
    by (simp add: WEEKDAY_DAILY_BUDGET_def)
qed

text \<open>
  Claim C7 at the date 0001-01-07. The string passes the format check and writes a
  calendar date, 7 January of the year 1, which is a Sunday. \<open>Date.UTC(1, 0, 7)\<close> reads
  the year 1 as 1901, where 7 January was a Monday, so the date is classified as a weekday
  and the daily summary for \<open>date=0001-01-07\<close> carries the weekday budget 50, not the
  weekend budget.
\<close>

theorem two_digit_year_weekday:
  "valid_calendar_date ''0001-01-07'' \<and> date_fields ''0001-01-07'' = (1, 1, 7)
   \<and> day_of_week 1 1 7 = 0 \<and> is_weekend 1 1 7
   \<and> dailyBudgetForSgDateString ''0001-01-07'' = WEEKDAY_DAILY_BUDGET
   \<and> map_sum id budget_daily
         (getDailySummaryData empty_world example_now (Some ''0001-01-07'')) = Inr 50"
proof -
  have a: "matches_date_pattern ''0001-01-07''"
    by (simp add: matches_date_pattern_def is_digit_def)
  have b: "date_fields ''0001-01-07'' = (1, 1, 7)"
    by (simp add: date_fields_def digits_value_def digit_value_def)
  have c: "valid_date 1 1 7"
    by (simp add: valid_date_def days_in_month_def)
  have d: "day_of_week 1 1 7 = 0"
    by (simp add: day_of_week_def day_number_eq MakeDay_month month_start_values
        DayFromYear_def)
  have e: "dailyBudgetForSgDateString ''0001-01-07'' = WEEKDAY_DAILY_BUDGET"
    by code_simp
  have f: "map_sum id budget_daily
      (getDailySummaryData empty_world example_now (Some ''0001-01-07'')) = Inr 50"
    by code_simp
  show ?thesis
    using a b c d e f by (simp add: valid_calendar_date_def is_weekend_def)
qed

end
